theory Spec2Isabelle
  imports Main
begin

unbundle bit_operations_syntax

section \<open>The gate program and its buffer\<close>

text \<open>
  The module \<^verbatim>\<open>qopexp/kernels/qasm_primitives.py\<close> builds an OpenQASM 2 program in a
  Python list \<^verbatim>\<open>lines\<close> of strings. Every routine receives that list and appends
  statements to it; nothing is ever read back or removed. A statement is kept here in
  structured form, and \<open>render\<close> below gives the text that the f-string of the source
  produces for it: \<open>X t\<close> is \<^verbatim>\<open>x q[t];\<close>, \<open>CX c t\<close> is \<^verbatim>\<open>cx q[c],q[t];\<close>,
  \<open>CCX a b t\<close> is \<^verbatim>\<open>ccx q[a],q[b],q[t];\<close>, \<open>H t\<close> is \<^verbatim>\<open>h q[t];\<close>,
  \<open>Z t\<close> is \<^verbatim>\<open>z q[t];\<close>, \<open>Measure t\<close> is \<^verbatim>\<open>measure q[t] -> c[0];\<close>,
  \<open>QReg n\<close> is \<^verbatim>\<open>qreg q[n];\<close> and \<open>Raw s\<close> is the literal line \<open>s\<close>.
  The register name \<^verbatim>\<open>q\<close>, which the source hands to every routine only to format the
  statements, is an argument of \<open>render\<close> instead. Qubit indices are Python integers.
\<close>

datatype stmt =
    Raw string
  | QReg int
  | X int
  | CX int int
  | CCX int int int
  | H int
  | Z int
  | Measure int

text \<open>
  The two exceptions of the module: the \<^verbatim>\<open>ValueError\<close> that \<^verbatim>\<open>mcx_ladder\<close> raises when
  it is given too few work qubits, and the \<^verbatim>\<open>IndexError\<close> of reading position 0 of an
  empty list.
\<close>

datatype error = ValueError | IndexError

type_synonym buffer = "stmt list"

text \<open>
  A routine of the source mutates the buffer and either returns or raises. It is a
  function from the buffer to the exception raised, if any, and the buffer as the
  routine leaves it.
\<close>

type_synonym emitter = "buffer \<Rightarrow> error option \<times> buffer"

definition append_line :: "stmt \<Rightarrow> emitter" where
  "append_line g lines = (None, lines @ [g])"

definition raise :: "error \<Rightarrow> emitter" where
  "raise e lines = (Some e, lines)"

definition no_op :: emitter where
  "no_op lines = (None, lines)"

text \<open>A \<^verbatim>\<open>for\<close> loop over a list; an exception in the body leaves the loop.\<close>

fun for_each :: "'a list \<Rightarrow> ('a \<Rightarrow> emitter) \<Rightarrow> emitter" where
  "for_each [] body lines = (None, lines)"
| "for_each (x # xs) body lines =
     (case body x lines of
        (None, lines') \<Rightarrow> for_each xs body lines'
      | (Some e, lines') \<Rightarrow> (Some e, lines'))"

text \<open>A block of statements executed in order.\<close>

definition seqs :: "emitter list \<Rightarrow> emitter" where
  "seqs es = for_each es (\<lambda>e. e)"

section \<open>The routines of \<^verbatim>\<open>qasm_primitives.py\<close>\<close>

definition inv_gates :: "int list \<Rightarrow> emitter" where
  "inv_gates qubits = for_each qubits (\<lambda>qb. append_line (X qb))"

text \<open>
  \<^verbatim>\<open>mcx_ladder\<close>. With \<open>k \<ge> 3\<close> controls and at least \<open>k - 2\<close> work qubits every list
  position read below is in range: \<^verbatim>\<open>range(2, k - 1)\<close> is \<open>[2..<k - 1]\<close> and
  \<^verbatim>\<open>range(k - 2, 1, -1)\<close> is its reverse.
\<close>

definition mcx_ladder :: "int list \<Rightarrow> int \<Rightarrow> int list \<Rightarrow> emitter" where
  "mcx_ladder controls target work =
     (let k = length controls in
      if k = 0 then append_line (X target)
      else if k = 1 then append_line (CX (controls ! 0) target)
      else if k = 2 then append_line (CCX (controls ! 0) (controls ! 1) target)
      else
        let need = k - 2 in
        if length work < need then raise ValueError
        else seqs
          [append_line (CCX (controls ! 0) (controls ! 1) (work ! 0)),
           for_each [2..<k - 1]
             (\<lambda>i. append_line (CCX (controls ! i) (work ! (i - 2)) (work ! (i - 1)))),
           append_line (CCX (controls ! (k - 1)) (work ! (need - 1)) target),
           for_each (rev [2..<k - 1])
             (\<lambda>i. append_line (CCX (controls ! i) (work ! (i - 2)) (work ! (i - 1)))),
           append_line (CCX (controls ! 0) (controls ! 1) (work ! 0))])"

text \<open>
  The inner loop of \<^verbatim>\<open>mark_less_than_constant_disjoint_terms\<close> for the bit position
  \<open>i\<close>: it walks \<^verbatim>\<open>range(n - 1, i, -1)\<close> and collects the control qubits and those of
  them that are controlled on 0, then adds the qubit of position \<open>i\<close> to both.
\<close>

definition term_controls :: "int list \<Rightarrow> int list \<Rightarrow> nat \<Rightarrow> int list \<times> int list" where
  "term_controls index bits i =
     (let n = length index;
          (controls, zero_controls) =
            fold (\<lambda>j (cs, zs).
                    let qb = index ! j in
                    if bits ! j = 1 then (cs @ [qb], zs)
                    else (cs @ [qb], zs @ [qb]))
                 (rev [Suc i..<n]) ([], []);
          qb_i = index ! i
      in (controls @ [qb_i], zero_controls @ [qb_i]))"

definition mark_less_than_constant_disjoint_terms ::
    "int list \<Rightarrow> int \<Rightarrow> int \<Rightarrow> int list \<Rightarrow> emitter" where
  "mark_less_than_constant_disjoint_terms index flag C work =
     (let n = length index in
      if C \<le> 0 then no_op
      else
        let maxC = push_bit n (1 :: int) in
        if C \<ge> maxC then append_line (X flag)
        else
          let bits = map (\<lambda>i. drop_bit i C AND 1) [0..<n] in
          for_each (rev [0..<n])
            (\<lambda>i. if bits ! i \<noteq> 1 then no_op
                 else
                   let (controls, zero_controls) = term_controls index bits i in
                   seqs [inv_gates zero_controls,
                         mcx_ladder controls flag work,
                         inv_gates zero_controls]))"

definition mark_range_lo_hi ::
    "int list \<Rightarrow> int \<Rightarrow> int \<Rightarrow> int \<Rightarrow> int \<Rightarrow> int \<Rightarrow> int list \<Rightarrow> emitter" where
  "mark_range_lo_hi index flag_out tmp_hi tmp_lo lo hi work =
     seqs [mark_less_than_constant_disjoint_terms index tmp_hi hi work,
           mark_less_than_constant_disjoint_terms index tmp_lo lo work,
           append_line (X tmp_lo),
           append_line (CCX tmp_hi tmp_lo flag_out),
           append_line (X tmp_lo)]"

definition uncompute_range_lo_hi ::
    "int list \<Rightarrow> int \<Rightarrow> int \<Rightarrow> int \<Rightarrow> int \<Rightarrow> int \<Rightarrow> int list \<Rightarrow> emitter" where
  "uncompute_range_lo_hi index flag_out tmp_hi tmp_lo lo hi work =
     seqs [append_line (X tmp_lo),
           append_line (CCX tmp_hi tmp_lo flag_out),
           append_line (X tmp_lo),
           mark_less_than_constant_disjoint_terms index tmp_lo lo work,
           mark_less_than_constant_disjoint_terms index tmp_hi hi work]"

definition phase_oracle_qfilter ::
    "int list \<Rightarrow> int \<Rightarrow> int \<Rightarrow> int \<Rightarrow> string \<Rightarrow> int \<Rightarrow> int \<Rightarrow> int list \<Rightarrow> emitter" where
  "phase_oracle_qfilter index flag_range tmp_hi tmp_lo pred_type lo hi work =
     (if pred_type = ''qid_lt'' then
        seqs [mark_less_than_constant_disjoint_terms index flag_range hi work,
              append_line (Z flag_range),
              mark_less_than_constant_disjoint_terms index flag_range hi work]
      else
        seqs [mark_range_lo_hi index flag_range tmp_hi tmp_lo lo hi work,
              append_line (Z flag_range),
              uncompute_range_lo_hi index flag_range tmp_hi tmp_lo lo hi work])"

text \<open>
  \<^verbatim>\<open>diffusion_about_uniform\<close>. With an empty index register the source reaches
  \<^verbatim>\<open>index[0]\<close> in the \<^verbatim>\<open>else\<close> branch, which raises; \<^verbatim>\<open>index[1:]\<close> is \<open>drop 1 index\<close>.
\<close>

definition diffusion_about_uniform :: "int list \<Rightarrow> int list \<Rightarrow> emitter" where
  "diffusion_about_uniform index work =
     (let n = length index in
      seqs [for_each index (\<lambda>qb. append_line (H qb)),
            for_each index (\<lambda>qb. append_line (X qb)),
            (if n = 1 then append_line (Z (index ! 0))
             else if index = [] then raise IndexError
             else
               let target = index ! 0; controls = drop 1 index in
               seqs [append_line (H target),
                     mcx_ladder controls target work,
                     append_line (H target)]),
            for_each index (\<lambda>qb. append_line (X qb)),
            for_each index (\<lambda>qb. append_line (H qb))])"

definition prepare_uniform :: "int list \<Rightarrow> emitter" where
  "prepare_uniform index = for_each index (\<lambda>qb. append_line (H qb))"

definition final_compute_and_measure_flag ::
    "int list \<Rightarrow> int \<Rightarrow> int \<Rightarrow> int \<Rightarrow> string \<Rightarrow> int \<Rightarrow> int \<Rightarrow> int list \<Rightarrow> emitter" where
  "final_compute_and_measure_flag index flag_out tmp_hi tmp_lo pred_type lo hi work =
     (if pred_type = ''qid_lt'' then
        seqs [mark_less_than_constant_disjoint_terms index flag_out hi work,
              append_line (Measure flag_out)]
      else
        seqs [mark_range_lo_hi index flag_out tmp_hi tmp_lo lo hi work,
              append_line (Measure flag_out)])"

section \<open>Text of a program\<close>

text \<open>Python's \<^verbatim>\<open>str\<close> of an integer, as the f-strings of the source use it.\<close>

fun str_nat :: "nat \<Rightarrow> string" where
  "str_nat n =
     (if n < 10 then [char_of (48 + n)]
      else str_nat (n div 10) @ [char_of (48 + n mod 10)])"

declare str_nat.simps [simp del]

definition str_int :: "int \<Rightarrow> string" where
  "str_int i = (if i < 0 then CHR ''-'' # str_nat (nat (- i)) else str_nat (nat i))"

definition qref :: "string \<Rightarrow> int \<Rightarrow> string" where
  "qref q i = q @ ''['' @ str_int i @ '']''"

fun render :: "string \<Rightarrow> stmt \<Rightarrow> string" where
  "render q (Raw s) = s"
| "render q (QReg n) = ''qreg '' @ qref q n @ '';''"
| "render q (X t) = ''x '' @ qref q t @ '';''"
| "render q (CX c t) = ''cx '' @ qref q c @ '','' @ qref q t @ '';''"
| "render q (CCX a b t) = ''ccx '' @ qref q a @ '','' @ qref q b @ '','' @ qref q t @ '';''"
| "render q (H t) = ''h '' @ qref q t @ '';''"
| "render q (Z t) = ''z '' @ qref q t @ '';''"
| "render q (Measure t) = ''measure '' @ qref q t @ '' -> c[0];''"

text \<open>\<^verbatim>\<open>sep.join(xs)\<close>\<close>

fun join :: "string \<Rightarrow> string list \<Rightarrow> string" where
  "join sep [] = []"
| "join sep [x] = x"
| "join sep (x # y # ys) = x @ sep @ join sep (y # ys)"

text \<open>
  The builders use the register name \<^verbatim>\<open>q\<close>. \<open>rendered_lines\<close> is the Python list of
  strings, and \<open>program_text\<close> the returned \<^verbatim>\<open>"\n".join(lines) + "\n"\<close>.
\<close>

definition rendered_lines :: "stmt list \<Rightarrow> string list" where
  "rendered_lines lines = map (render ''q'') lines"

definition program_text :: "stmt list \<Rightarrow> string" where
  "program_text lines = join [CHR 0x0A] (rendered_lines lines) @ [CHR 0x0A]"

section \<open>The circuit assembler\<close>

text \<open>\<^verbatim>\<open>list(range(a, b))\<close>\<close>

definition py_range :: "int \<Rightarrow> int \<Rightarrow> int list" where
  "py_range a b = [a..b - 1]"

text \<open>The metadata comment lines of the two builders (their fourth list element).\<close>

definition grover_comment :: "int \<Rightarrow> int \<Rightarrow> string \<Rightarrow> int \<Rightarrow> int \<Rightarrow> string" where
  "grover_comment n_index iterations pred_type lo hi =
     ''// kernel=grover_qfilter n_index='' @ str_int n_index
       @ '' iters='' @ str_int iterations @ '' pred='' @ pred_type
       @ '' lo='' @ str_int lo @ '' hi='' @ str_int hi"

definition mlae_comment :: "int \<Rightarrow> int \<Rightarrow> string \<Rightarrow> int \<Rightarrow> int \<Rightarrow> string" where
  "mlae_comment n_index k pred_type lo hi =
     ''// kernel=mlae_selectivity n_index='' @ str_int n_index
       @ '' k='' @ str_int k @ '' pred='' @ pred_type
       @ '' lo='' @ str_int lo @ '' hi='' @ str_int hi"

text \<open>
  The two builders. \<^verbatim>\<open>qasm2_header\<close> is imported from \<^verbatim>\<open>kernels/utils.py\<close>, which is not
  among the sources: the line it returns is the parameter \<open>header\<close>. \<^verbatim>\<open>flags[0]\<close> raises
  on an empty \<^verbatim>\<open>flags\<close>; \<^verbatim>\<open>flags[1]\<close> and \<^verbatim>\<open>flags[2]\<close> are read only when they exist.
  The functions \<open>\<dots>_lines\<close> give the list \<^verbatim>\<open>lines\<close> at the \<^verbatim>\<open>return\<close>, and the builders
  proper join it into the text.
\<close>

definition build_qasm2_grover_qfilter_lines ::
    "string \<Rightarrow> int \<Rightarrow> int \<Rightarrow> string \<Rightarrow> int \<Rightarrow> int \<Rightarrow> int \<Rightarrow> error + stmt list" where
  "build_qasm2_grover_qfilter_lines header n_index iterations pred_type lo hi flags_count =
     (let work_n = max 0 (n_index - 2);
          total = n_index + flags_count + work_n;
          index = py_range 0 n_index;
          flags = py_range n_index (n_index + flags_count);
          work = py_range (n_index + flags_count) total
      in
      if flags = [] then Inl IndexError
      else
        let flag_range = flags ! 0;
            tmp_hi = (if flags_count \<ge> 2 then flags ! 1 else flags ! 0);
            tmp_lo = (if flags_count \<ge> 3 then flags ! 2 else flags ! 0);
            lines =
              [Raw header,
               QReg total,
               Raw ''creg c[1];'',
               Raw (grover_comment n_index iterations pred_type lo hi)]
        in
        case seqs
               [prepare_uniform index,
                for_each [0..<nat (max 0 iterations)]
                  (\<lambda>_. seqs [phase_oracle_qfilter index flag_range tmp_hi tmp_lo
                                pred_type lo hi work,
                              diffusion_about_uniform index work]),
                final_compute_and_measure_flag index flag_range tmp_hi tmp_lo
                  pred_type lo hi work]
               lines of
          (Some e, _) \<Rightarrow> Inl e
        | (None, lines') \<Rightarrow> Inr lines')"

definition build_qasm2_grover_qfilter ::
    "string \<Rightarrow> int \<Rightarrow> int \<Rightarrow> string \<Rightarrow> int \<Rightarrow> int \<Rightarrow> int \<Rightarrow> error + string" where
  "build_qasm2_grover_qfilter header n_index iterations pred_type lo hi flags_count =
     map_sum (\<lambda>e. e) program_text
       (build_qasm2_grover_qfilter_lines header n_index iterations pred_type lo hi
          flags_count)"

definition build_qasm2_mlae_schedule_element_lines ::
    "string \<Rightarrow> int \<Rightarrow> int \<Rightarrow> string \<Rightarrow> int \<Rightarrow> int \<Rightarrow> int \<Rightarrow> error + stmt list" where
  "build_qasm2_mlae_schedule_element_lines header n_index k pred_type lo hi flags_count =
     (let work_n = max 0 (n_index - 2);
          total = n_index + flags_count + work_n;
          index = py_range 0 n_index;
          flags = py_range n_index (n_index + flags_count);
          work = py_range (n_index + flags_count) total
      in
      if flags = [] then Inl IndexError
      else
        let flag_range = flags ! 0;
            tmp_hi = (if flags_count \<ge> 2 then flags ! 1 else flags ! 0);
            tmp_lo = (if flags_count \<ge> 3 then flags ! 2 else flags ! 0);
            lines =
              [Raw header,
               QReg total,
               Raw ''creg c[1];'',
               Raw (mlae_comment n_index k pred_type lo hi)];
            reps = nat (max 0 k)
        in
        case seqs
               [prepare_uniform index,
                for_each [0..<reps]
                  (\<lambda>_. seqs [phase_oracle_qfilter index flag_range tmp_hi tmp_lo
                                pred_type lo hi work,
                              diffusion_about_uniform index work]),
                final_compute_and_measure_flag index flag_range tmp_hi tmp_lo
                  pred_type lo hi work]
               lines of
          (Some e, _) \<Rightarrow> Inl e
        | (None, lines') \<Rightarrow> Inr lines')"

definition build_qasm2_mlae_schedule_element ::
    "string \<Rightarrow> int \<Rightarrow> int \<Rightarrow> string \<Rightarrow> int \<Rightarrow> int \<Rightarrow> int \<Rightarrow> error + string" where
  "build_qasm2_mlae_schedule_element header n_index k pred_type lo hi flags_count =
     map_sum (\<lambda>e. e) program_text
       (build_qasm2_mlae_schedule_element_lines header n_index k pred_type lo hi
          flags_count)"

text \<open>
  The predicate tag as \<^verbatim>\<open>GroverQFilterKernel.build\<close> and \<^verbatim>\<open>MLAESelectivityKernel.build\<close>
  pass it to the builders: a tag other than the two known ones is replaced.
\<close>

definition kernel_pred_type :: "string \<Rightarrow> string" where
  "kernel_pred_type pred_type =
     (if pred_type \<notin> {''qid_lt'', ''qid_range''} then ''qid_lt'' else pred_type)"

section \<open>Classical simulation\<close>

text \<open>
  A classical basis state gives every qubit a bit. NOT, controlled NOT and doubly
  controlled NOT map basis states to basis states; the other statements have no
  classical simulation.
\<close>

type_synonym qstate = "int \<Rightarrow> bool"

fun classical_step :: "stmt \<Rightarrow> qstate \<Rightarrow> qstate option" where
  "classical_step (X t) s = Some (s(t := \<not> s t))"
| "classical_step (CX c t) s = Some (s(t := (s t \<noteq> s c)))"
| "classical_step (CCX a b t) s = Some (s(t := (s t \<noteq> (s a \<and> s b))))"
| "classical_step _ s = None"

fun simulate :: "stmt list \<Rightarrow> qstate \<Rightarrow> qstate option" where
  "simulate [] s = Some s"
| "simulate (g # gs) s =
     (case classical_step g s of None \<Rightarrow> None | Some s' \<Rightarrow> simulate gs s')"

section \<open>Auxiliary notions for the proofs\<close>

text \<open>
  \<open>emits e gs\<close>: whatever the buffer holds, the routine \<open>e\<close> returns without raising and
  leaves the buffer extended by exactly the statements \<open>gs\<close>.
\<close>

definition emits :: "emitter \<Rightarrow> stmt list \<Rightarrow> bool" where
  "emits e gs \<longleftrightarrow> (\<forall>lines. e lines = (None, lines @ gs))"

text \<open>
  The statements of \<^verbatim>\<open>mcx_ladder\<close> in closed form: \<open>ladder_up cs w m\<close> is the compute
  half of the ladder up to (excluding) control \<open>m\<close>.
\<close>

definition ladder_up :: "int list \<Rightarrow> int list \<Rightarrow> nat \<Rightarrow> stmt list" where
  "ladder_up cs w m =
     CCX (cs ! 0) (cs ! 1) (w ! 0) # map (\<lambda>i. CCX (cs ! i) (w ! (i - 2)) (w ! (i - 1))) [2..<m]"

definition mcx_gates :: "int list \<Rightarrow> int \<Rightarrow> int list \<Rightarrow> stmt list" where
  "mcx_gates cs t w =
     (let k = length cs in
      if k = 0 then [X t]
      else if k = 1 then [CX (cs ! 0) t]
      else if k = 2 then [CCX (cs ! 0) (cs ! 1) t]
      else ladder_up cs w (k - 1) @ [CCX (cs ! (k - 1)) (w ! (k - 3)) t]
           @ rev (ladder_up cs w (k - 1)))"

fun is_ccx :: "stmt \<Rightarrow> bool" where
  "is_ccx (CCX a b t) = True"
| "is_ccx _ = False"

text \<open>The qubits a statement reads or writes, and the statements that undo themselves.\<close>

fun touches :: "stmt \<Rightarrow> int set" where
  "touches (X t) = {t}"
| "touches (CX c t) = {c, t}"
| "touches (CCX a b t) = {a, b, t}"
| "touches _ = {}"

fun reversible :: "stmt \<Rightarrow> bool" where
  "reversible (X t) = True"
| "reversible (CX c t) = (c \<noteq> t)"
| "reversible (CCX a b t) = (a \<noteq> t \<and> b \<noteq> t)"
| "reversible _ = False"


text \<open>The basis state with every qubit 0.\<close>

definition all_zero :: qstate where
  "all_zero q = False"

text \<open>The state after a NOT on each of the qubits \<open>zs\<close>.\<close>

definition flip_all :: "int list \<Rightarrow> qstate \<Rightarrow> qstate" where
  "flip_all zs s = (\<lambda>q. if q \<in> set zs then \<not> s q else s q)"

text \<open>
  The statements of \<^verbatim>\<open>mark_less_than_constant_disjoint_terms\<close> in closed form:
  \<open>term_gates\<close> for one set bit of the bound, \<open>mark_less_gates\<close> for the whole call.
\<close>

definition term_gates :: "int list \<Rightarrow> int list \<Rightarrow> int \<Rightarrow> int list \<Rightarrow> nat \<Rightarrow> stmt list" where
  "term_gates index bits flag work i =
     (let (cs, zs) = term_controls index bits i
      in map X zs @ mcx_gates cs flag work @ map X zs)"

definition mark_less_gates :: "int list \<Rightarrow> int \<Rightarrow> int \<Rightarrow> int list \<Rightarrow> stmt list" where
  "mark_less_gates index flag C work =
     (let n = length index in
      if C \<le> 0 then []
      else if C \<ge> 2 ^ n then [X flag]
      else
        let bits = map (\<lambda>i. drop_bit i C AND 1) [0..<n] in
        concat (map (\<lambda>i. if bits ! i \<noteq> 1 then [] else term_gates index bits flag work i)
                  (rev [0..<n])))"

text \<open>
  The three statements computing \<^verbatim>\<open>flag_out ^= tmp_hi AND NOT tmp_lo\<close>, and the statements
  of \<^verbatim>\<open>mark_range_lo_hi\<close> and \<^verbatim>\<open>uncompute_range_lo_hi\<close> in closed form.
\<close>

definition and_gates :: "int \<Rightarrow> int \<Rightarrow> int \<Rightarrow> stmt list" where
  "and_gates flag_out tmp_hi tmp_lo = [X tmp_lo, CCX tmp_hi tmp_lo flag_out, X tmp_lo]"

definition mark_range_gates ::
    "int list \<Rightarrow> int \<Rightarrow> int \<Rightarrow> int \<Rightarrow> int \<Rightarrow> int \<Rightarrow> int list \<Rightarrow> stmt list" where
  "mark_range_gates index flag_out tmp_hi tmp_lo lo hi work =
     mark_less_gates index tmp_hi hi work @ mark_less_gates index tmp_lo lo work
       @ and_gates flag_out tmp_hi tmp_lo"

definition uncompute_range_gates ::
    "int list \<Rightarrow> int \<Rightarrow> int \<Rightarrow> int \<Rightarrow> int \<Rightarrow> int \<Rightarrow> int list \<Rightarrow> stmt list" where
  "uncompute_range_gates index flag_out tmp_hi tmp_lo lo hi work =
     and_gates flag_out tmp_hi tmp_lo @ mark_less_gates index tmp_lo lo work
       @ mark_less_gates index tmp_hi hi work"

text \<open>A register state: the layout is sound, the work qubits are 0 and the index holds x.\<close>

definition holds_index ::
    "int list \<Rightarrow> int list \<Rightarrow> int list \<Rightarrow> qstate \<Rightarrow> int \<Rightarrow> bool" where
  "holds_index index flags work s x \<longleftrightarrow>
     distinct (index @ flags @ work) \<and> length index - 2 \<le> length work
     \<and> 0 \<le> x \<and> x < 2 ^ length index
     \<and> (\<forall>j<length index. s (index ! j) = bit x j)
     \<and> (\<forall>w\<in>set work. \<not> s w)"

text \<open>
  Gate and measurement statements, as opposed to header lines; and routines whose
  outcome and appended statements do not depend on the buffer they are given, and
  that append only such statements.
\<close>

fun is_gate :: "stmt \<Rightarrow> bool" where
  "is_gate (Raw s) = False"
| "is_gate (QReg n) = False"
| "is_gate _ = True"

definition uniform :: "emitter \<Rightarrow> bool" where
  "uniform e \<longleftrightarrow>
     (\<forall>lines. e lines = (fst (e []), lines @ snd (e []))) \<and> list_all is_gate (snd (e []))"

text \<open>The sizes declared by the register-declaration lines of a program, in order.\<close>

fun register_declarations :: "stmt list \<Rightarrow> int list" where
  "register_declarations [] = []"
| "register_declarations (QReg n # lines) = n # register_declarations lines"
| "register_declarations (_ # lines) = register_declarations lines"

text \<open>A routine that returns without raising, whatever the buffer holds.\<close>

definition succeeds :: "emitter \<Rightarrow> bool" where
  "succeeds e \<longleftrightarrow> (\<exists>gs. emits e gs)"

text \<open>The statements that both builders append to their four header lines.\<close>

definition circuit_body ::
    "int list \<Rightarrow> int \<Rightarrow> int \<Rightarrow> int \<Rightarrow> string \<Rightarrow> int \<Rightarrow> int \<Rightarrow> int list \<Rightarrow> nat \<Rightarrow> emitter" where
  "circuit_body index flag_range tmp_hi tmp_lo pred_type lo hi work reps =
     seqs [prepare_uniform index,
           for_each [0..<reps]
             (\<lambda>_. seqs [phase_oracle_qfilter index flag_range tmp_hi tmp_lo
                           pred_type lo hi work,
                         diffusion_about_uniform index work]),
           final_compute_and_measure_flag index flag_range tmp_hi tmp_lo
             pred_type lo hi work]"

text \<open>The common body on the register layout that both builders compute.\<close>

definition layout_body :: "int \<Rightarrow> int \<Rightarrow> string \<Rightarrow> int \<Rightarrow> int \<Rightarrow> nat \<Rightarrow> emitter" where
  "layout_body n_index flags_count pred_type lo hi reps =
     (let total = n_index + flags_count + max 0 (n_index - 2);
          index = py_range 0 n_index;
          flags = py_range n_index (n_index + flags_count);
          work = py_range (n_index + flags_count) total
      in circuit_body index (flags ! 0)
           (if flags_count \<ge> 2 then flags ! 1 else flags ! 0)
           (if flags_count \<ge> 3 then flags ! 2 else flags ! 0)
           pred_type lo hi work reps)"

section \<open>What the routines append\<close>

lemma emitsI: "(\<And>lines. e lines = (None, lines @ gs)) \<Longrightarrow> emits e gs"
  by (simp add: emits_def)

lemma emitsD: "emits e gs \<Longrightarrow> e lines = (None, lines @ gs)"
  by (simp add: emits_def)

lemma emits_append_line: "emits (append_line g) [g]"
  by (simp add: emits_def append_line_def)

lemma emits_no_op: "emits no_op []"
  by (simp add: emits_def no_op_def)

lemma emits_for_each:
  "(\<And>x. x \<in> set xs \<Longrightarrow> emits (body x) (G x)) \<Longrightarrow>
   emits (for_each xs body) (concat (map G xs))"
proof (induction xs)
  case Nil
  show ?case by (simp add: emits_def)
next
  case (Cons x xs)
  have hd: "emits (body x) (G x)" using Cons.prems by simp
  have tl: "emits (for_each xs body) (concat (map G xs))"
    using Cons.IH Cons.prems by simp
  show ?case
    unfolding emits_def
  proof
    fix lines
    show "for_each (x # xs) body lines = (None, lines @ concat (map G (x # xs)))"
      by (simp add: emitsD [OF hd] emitsD [OF tl])
  qed
qed

lemma emits_for_each_append_line:
  "emits (for_each xs (\<lambda>x. append_line (f x))) (map f xs)"
proof -
  have "emits (for_each xs (\<lambda>x. append_line (f x))) (concat (map (\<lambda>x. [f x]) xs))"
    by (rule emits_for_each) (rule emits_append_line)
  moreover have "concat (map (\<lambda>x. [f x]) xs) = map f xs"
    by (induction xs) simp_all
  ultimately show ?thesis by simp
qed

lemma emits_seqs_Nil: "emits (seqs []) []"
  by (simp add: emits_def seqs_def)

lemma emits_seqs_Cons:
  "emits e g \<Longrightarrow> emits (seqs es) gs \<Longrightarrow> emits (seqs (e # es)) (g @ gs)"
  by (simp add: emits_def seqs_def)

lemma emits_inv_gates: "emits (inv_gates zs) (map X zs)"
  unfolding inv_gates_def by (rule emits_for_each_append_line)

lemma mcx_ladder_emits:
  assumes "length cs - 2 \<le> length w"
  shows "emits (mcx_ladder cs t w) (mcx_gates cs t w)"
proof -
  consider "length cs = 0" | "length cs = 1" | "length cs = 2" | "3 \<le> length cs"
    by linarith
  then show ?thesis
  proof cases
    case 1
    then show ?thesis by (simp add: mcx_ladder_def mcx_gates_def emits_append_line)
  next
    case 2
    then show ?thesis by (simp add: mcx_ladder_def mcx_gates_def emits_append_line)
  next
    case 3
    then show ?thesis by (simp add: mcx_ladder_def mcx_gates_def emits_append_line)
  next
    case 4
    let ?f = "\<lambda>i. CCX (cs ! i) (w ! (i - 2)) (w ! (i - 1))"
    let ?g0 = "CCX (cs ! 0) (cs ! 1) (w ! 0)"
    let ?mid = "CCX (cs ! (length cs - 1)) (w ! (length cs - 2 - 1)) t"
    have "emits (seqs [append_line ?g0,
                       for_each [2..<length cs - 1] (\<lambda>i. append_line (?f i)),
                       append_line ?mid,
                       for_each (rev [2..<length cs - 1]) (\<lambda>i. append_line (?f i)),
                       append_line ?g0])
            ([?g0] @ map ?f [2..<length cs - 1] @ [?mid] @ map ?f (rev [2..<length cs - 1])
              @ [?g0] @ [])"
      by (intro emits_seqs_Cons emits_seqs_Nil emits_append_line emits_for_each_append_line)
    moreover have "mcx_ladder cs t w =
        seqs [append_line ?g0,
              for_each [2..<length cs - 1] (\<lambda>i. append_line (?f i)),
              append_line ?mid,
              for_each (rev [2..<length cs - 1]) (\<lambda>i. append_line (?f i)),
              append_line ?g0]"
    proof -
      have "length cs \<noteq> 0" "length cs \<noteq> 1" "length cs \<noteq> 2"
           "\<not> length w < length cs - 2"
        using 4 assms by auto
      then show ?thesis by (simp add: mcx_ladder_def Let_def)
    qed
    moreover have "mcx_gates cs t w =
        [?g0] @ map ?f [2..<length cs - 1] @ [?mid] @ map ?f (rev [2..<length cs - 1])
              @ [?g0] @ []"
    proof -
      have "length cs \<noteq> 0" "length cs \<noteq> 1" "length cs \<noteq> 2"
           "length cs - 3 = length cs - 2 - 1"
        using 4 by auto
      then show ?thesis by (simp add: mcx_gates_def ladder_up_def Let_def rev_map)
    qed
    ultimately show ?thesis by simp
  qed
qed

lemma mcx_ladder_raises:
  assumes "3 \<le> length cs" "length w < length cs - 2"
  shows "mcx_ladder cs t w lines = (Some ValueError, lines)"
proof -
  have "length cs \<noteq> 0" "length cs \<noteq> 1" "length cs \<noteq> 2"
    using assms by auto
  then show ?thesis using assms(2) by (simp add: mcx_ladder_def Let_def raise_def)
qed

lemma mcx_gates_ccx:
  assumes "3 \<le> length cs"
  shows "length (mcx_gates cs t w) = 2 * (length cs - 2) + 1"
    and "list_all is_ccx (mcx_gates cs t w)"
proof -
  have k: "length cs \<noteq> 0" "length cs \<noteq> 1" "length cs \<noteq> 2"
    using assms by auto
  show "length (mcx_gates cs t w) = 2 * (length cs - 2) + 1"
    using k assms by (simp add: mcx_gates_def ladder_up_def Let_def)
  show "list_all is_ccx (mcx_gates cs t w)"
    using k by (simp add: mcx_gates_def ladder_up_def Let_def list_all_iff)
qed


section \<open>Simulation of the ladder\<close>

lemma simulate_append:
  "simulate (a @ b) s = (case simulate a s of None \<Rightarrow> None | Some s' \<Rightarrow> simulate b s')"
  by (induction a arbitrary: s) (simp_all split: option.splits)

lemma simulate_append_Some:
  "simulate a s = Some s1 \<Longrightarrow> simulate b s1 = r \<Longrightarrow> simulate (a @ b) s = r"
  by (simp add: simulate_append)

lemma step_frame:
  "q \<notin> touches g \<Longrightarrow>
   classical_step g (s(q := v)) = map_option (\<lambda>s'. s'(q := v)) (classical_step g s)"
  by (cases g) (auto simp: fun_upd_twist)

lemma simulate_frame:
  "\<forall>g \<in> set G. q \<notin> touches g \<Longrightarrow>
   simulate G (s(q := v)) = map_option (\<lambda>s'. s'(q := v)) (simulate G s)"
proof (induction G arbitrary: s)
  case Nil
  show ?case by simp
next
  case (Cons g G s)
  then have g: "q \<notin> touches g" and G: "\<forall>g \<in> set G. q \<notin> touches g" by simp_all
  have IH: "simulate G (s'(q := v)) = map_option (\<lambda>s'. s'(q := v)) (simulate G s')" for s'
    using Cons.IH [OF G] .
  show "simulate (g # G) (s(q := v)) = map_option (\<lambda>s'. s'(q := v)) (simulate (g # G) s)"
  proof (cases "classical_step g s")
    case None
    then show ?thesis by (simp add: step_frame [OF g])
  next
    case (Some s')
    then show ?thesis by (simp add: step_frame [OF g] IH)
  qed
qed

lemma step_total: "reversible g \<Longrightarrow> classical_step g s \<noteq> None"
  by (cases g) simp_all

lemma step_involution:
  "reversible g \<Longrightarrow> classical_step g s = Some s' \<Longrightarrow> classical_step g s' = Some s"
  by (cases g) (auto simp: fun_upd_idem_iff)

lemma step_reversible:
  "reversible g \<Longrightarrow> \<exists>s'. classical_step g s = Some s' \<and> classical_step g s' = Some s"
  using step_total [of g s] step_involution [of g s] by (cases "classical_step g s") simp_all

lemma simulate_reversible:
  "list_all reversible G \<Longrightarrow> \<exists>s1. simulate G s = Some s1 \<and> simulate (rev G) s1 = Some s"
proof (induction G arbitrary: s)
  case Nil
  show ?case by simp
next
  case (Cons g G s)
  then have g: "reversible g" and G: "list_all reversible G" by simp_all
  from step_reversible [OF g] obtain s' where
    s': "classical_step g s = Some s'" "classical_step g s' = Some s" by blast
  have "\<exists>s1. simulate G s' = Some s1 \<and> simulate (rev G) s1 = Some s'"
    using Cons.IH [OF G] .
  then obtain s1 where
    s1: "simulate G s' = Some s1" "simulate (rev G) s1 = Some s'" by blast
  have "simulate (g # G) s = Some s1" using s' s1 by simp
  moreover have "simulate (rev (g # G)) s1 = Some s"
    using s' s1 by (simp add: simulate_append)
  ultimately show "\<exists>s1. simulate (g # G) s = Some s1 \<and> simulate (rev (g # G)) s1 = Some s"
    by blast
qed

lemma step_unchanged:
  "classical_step g s = Some s' \<Longrightarrow> q \<notin> touches g \<Longrightarrow> s' q = s q"
  by (cases g) auto

lemma ladder_up_Suc:
  "2 \<le> m \<Longrightarrow>
   ladder_up cs w (Suc m) = ladder_up cs w m @ [CCX (cs ! m) (w ! (m - 2)) (w ! (m - 1))]"
  by (simp add: ladder_up_def)

lemma ladder_up_sem:
  "2 \<le> m \<Longrightarrow> m \<le> length cs \<Longrightarrow> m - 1 \<le> length w \<Longrightarrow> distinct w \<Longrightarrow>
   set cs \<inter> set w = {} \<Longrightarrow>
   \<exists>s1. simulate (ladder_up cs w m) s = Some s1
      \<and> (\<forall>q. q \<notin> set (take (m - 1) w) \<longrightarrow> s1 q = s q)
      \<and> ((\<forall>j<m - 1. \<not> s (w ! j)) \<longrightarrow> (\<forall>j<m - 1. s1 (w ! j) = (\<forall>i<j + 2. s (cs ! i))))"
proof (induction m rule: nat_induct_at_least)
  case base
  let ?s1 = "s(w ! 0 := (s (w ! 0) \<noteq> (s (cs ! 0) \<and> s (cs ! 1))))"
  have w: "0 < length w" using base by auto
  have tk: "take (Suc 0) w = [w ! 0]"
    using w by (cases w) simp_all
  have "simulate (ladder_up cs w 2) s = Some ?s1"
    by (simp add: ladder_up_def)
  moreover have "\<forall>q. q \<notin> set (take (2 - 1) w) \<longrightarrow> ?s1 q = s q"
    by (simp add: tk)
  moreover have "(\<forall>j<2 - 1. \<not> s (w ! j)) \<longrightarrow>
      (\<forall>j<2 - 1. ?s1 (w ! j) = (\<forall>i<j + 2. s (cs ! i)))"
    by (auto simp: less_Suc_eq numeral_2_eq_2)
  ultimately show ?case by blast
next
  case (Suc m)
  have m: "2 \<le> m" "m < length cs" "m - 1 < length w" "m - 2 < length w" "m - 2 \<noteq> m - 1"
    using Suc by auto
  have "\<exists>s1. simulate (ladder_up cs w m) s = Some s1
      \<and> (\<forall>q. q \<notin> set (take (m - 1) w) \<longrightarrow> s1 q = s q)
      \<and> ((\<forall>j<m - 1. \<not> s (w ! j)) \<longrightarrow> (\<forall>j<m - 1. s1 (w ! j) = (\<forall>i<j + 2. s (cs ! i))))"
    using Suc by simp
  then obtain s1 where run: "simulate (ladder_up cs w m) s = Some s1"
    and frame: "\<And>q. q \<notin> set (take (m - 1) w) \<Longrightarrow> s1 q = s q"
    and vals: "(\<forall>j<m - 1. \<not> s (w ! j)) \<Longrightarrow> j < m - 1 \<Longrightarrow> s1 (w ! j) = (\<forall>i<j + 2. s (cs ! i))"
    for j by blast
  let ?t = "w ! (m - 1)"
  let ?v = "(s1 ?t \<noteq> (s1 (cs ! m) \<and> s1 (w ! (m - 2))))"
  let ?s2 = "s1(?t := ?v)"
  have tk: "take m w = take (m - 1) w @ [?t]"
    using m take_Suc_conv_app_nth [of "m - 1" w] by simp
  have new: "?t \<notin> set (take (m - 1) w)"
  proof
    assume "?t \<in> set (take (m - 1) w)"
    then obtain i where "i < m - 1" "w ! i = ?t"
      using m by (auto simp: in_set_conv_nth)
    then show False
      using \<open>distinct w\<close> m by (simp add: nth_eq_iff_index_eq)
  qed
  have ctl: "cs ! m \<notin> set w"
    using \<open>set cs \<inter> set w = {}\<close> m nth_mem [of m cs] by blast
  have "simulate (ladder_up cs w (Suc m)) s = Some ?s2"
    using m run by (simp add: ladder_up_Suc simulate_append)
  moreover have "\<forall>q. q \<notin> set (take (Suc m - 1) w) \<longrightarrow> ?s2 q = s q"
    by (simp add: tk frame)
  moreover have "(\<forall>j<Suc m - 1. \<not> s (w ! j)) \<longrightarrow>
      (\<forall>j<Suc m - 1. ?s2 (w ! j) = (\<forall>i<j + 2. s (cs ! i)))"
  proof (intro impI allI)
    fix j
    assume zero: "\<forall>j<Suc m - 1. \<not> s (w ! j)" and j: "j < Suc m - 1"
    have zero': "\<forall>j<m - 1. \<not> s (w ! j)" using zero by simp
    show "?s2 (w ! j) = (\<forall>i<j + 2. s (cs ! i))"
    proof (cases "j = m - 1")
      case True
      have "s1 ?t = s ?t" using new by (rule frame)
      then have a: "\<not> s1 ?t" using zero m by simp
      have b: "s1 (cs ! m) = s (cs ! m)"
        using ctl by (intro frame) (auto dest: in_set_takeD)
      have "m - 2 < m - 1" "m - 2 + 2 = m" using m by simp_all
      then have c: "s1 (w ! (m - 2)) = (\<forall>i<m. s (cs ! i))"
        using vals [OF zero', of "m - 2"] by simp
      have "(\<forall>i<m + 1. s (cs ! i)) = (s (cs ! m) \<and> (\<forall>i<m. s (cs ! i)))"
        by (auto simp: less_Suc_eq)
      then show ?thesis using True a b c m by simp
    next
      case False
      then have lt: "j < m - 1" using j by simp
      then have "w ! j \<noteq> ?t"
        using \<open>distinct w\<close> m by (simp add: nth_eq_iff_index_eq)
      then show ?thesis using vals [OF zero' lt] by simp
    qed
  qed
  ultimately show ?case by blast
qed

lemma ladder_up_gates:
  assumes "2 \<le> m" "m \<le> length cs" "m - 1 \<le> length w" "distinct w" "set cs \<inter> set w = {}"
    and g: "g \<in> set (ladder_up cs w m)"
  shows "reversible g \<and> touches g \<subseteq> set cs \<union> set w"
proof -
  have w0: "0 < length w" and c: "0 < length cs" "1 < length cs" using assms by auto
  from g consider "g = CCX (cs ! 0) (cs ! 1) (w ! 0)"
    | i where "2 \<le> i" "i < m" "g = CCX (cs ! i) (w ! (i - 2)) (w ! (i - 1))"
    by (auto simp: ladder_up_def)
  then show ?thesis
  proof cases
    case 1
    have "cs ! 0 \<in> set cs" "cs ! 1 \<in> set cs" "w ! 0 \<in> set w"
      using w0 c by simp_all
    then show ?thesis using 1 assms(5) by auto
  next
    case 2
    then have i: "i < length cs" "i - 2 < length w" "i - 1 < length w" "i - 2 \<noteq> i - 1"
      using assms by auto
    then have mem: "cs ! i \<in> set cs" "w ! (i - 2) \<in> set w" "w ! (i - 1) \<in> set w"
      by simp_all
    have "w ! (i - 2) \<noteq> w ! (i - 1)"
      using i \<open>distinct w\<close> by (simp add: nth_eq_iff_index_eq)
    then show ?thesis using 2 mem assms(5) by auto
  qed
qed

lemma all_nth_Suc: "(\<forall>i<Suc n. P i) = (P n \<and> (\<forall>i<n. P i))"
  by (auto simp: less_Suc_eq)

lemma mcx_gates_sem:
  assumes w: "distinct w" and cw: "set cs \<inter> set w = {}"
    and tc: "t \<notin> set cs" and tw: "t \<notin> set w" and len: "length cs - 2 \<le> length w"
  shows "\<exists>v. simulate (mcx_gates cs t w) s = Some (s(t := v))
          \<and> ((\<forall>j<length cs - 2. \<not> s (w ! j)) \<longrightarrow> v = (s t \<noteq> (\<forall>c\<in>set cs. s c)))"
proof -
  consider "cs = []" | c where "cs = [c]" | a b where "cs = [a, b]" | "3 \<le> length cs"
  proof (cases cs)
    case Nil
    then show ?thesis using that by simp
  next
    case (Cons a as)
    then show ?thesis using that by (cases as; cases "tl as") auto
  qed
  then show ?thesis
  proof cases
    case 1
    then show ?thesis by (simp add: mcx_gates_def)
  next
    case 2
    then show ?thesis by (simp add: mcx_gates_def)
  next
    case 3
    then show ?thesis by (simp add: mcx_gates_def)
  next
    case 4
    let ?k = "length cs"
    let ?G = "ladder_up cs w (?k - 1)"
    have k: "2 \<le> ?k - 1" "?k - 1 \<le> ?k" "?k - 1 - 1 \<le> length w" "?k - 1 - 1 = ?k - 2"
      using 4 len by auto
    have kn: "?k \<noteq> 0" "?k \<noteq> 1" "?k \<noteq> 2" using 4 by auto
    have gates: "\<And>g. g \<in> set ?G \<Longrightarrow> reversible g \<and> touches g \<subseteq> set cs \<union> set w"
      by (rule ladder_up_gates [OF k(1) k(2) k(3) w cw])
    have "\<exists>s1. simulate ?G s = Some s1
      \<and> (\<forall>q. q \<notin> set (take (?k - 2) w) \<longrightarrow> s1 q = s q)
      \<and> ((\<forall>j<?k - 2. \<not> s (w ! j)) \<longrightarrow>
           (\<forall>j<?k - 2. s1 (w ! j) = (\<forall>i<j + 2. s (cs ! i))))"
      using ladder_up_sem [OF k(1) k(2) k(3) w cw, of s] unfolding k(4) .
    then obtain s1 where run: "simulate ?G s = Some s1"
      and frame: "\<And>q. q \<notin> set (take (?k - 2) w) \<Longrightarrow> s1 q = s q"
      and vals: "(\<forall>j<?k - 2. \<not> s (w ! j)) \<Longrightarrow> j < ?k - 2 \<Longrightarrow>
                   s1 (w ! j) = (\<forall>i<j + 2. s (cs ! i))" for j
      by blast
    have "list_all reversible ?G" using gates by (simp add: list_all_iff)
    then have "\<exists>s1. simulate ?G s = Some s1 \<and> simulate (rev ?G) s1 = Some s"
      by (rule simulate_reversible)
    then have rev_run: "simulate (rev ?G) s1 = Some s" using run by auto
    let ?c = "cs ! (?k - 1)"
    let ?v = "(s1 t \<noteq> (s1 ?c \<and> s1 (w ! (?k - 3))))"
    have untouched: "\<forall>g \<in> set (rev ?G). t \<notin> touches g"
      using gates tc tw by auto
    have "simulate (rev ?G) (s1(t := ?v)) = Some (s(t := ?v))"
      using simulate_frame [OF untouched, of s1 ?v] rev_run by simp
    then have sim: "simulate (mcx_gates cs t w) s = Some (s(t := ?v))"
      using kn run by (simp add: mcx_gates_def Let_def simulate_append)
    have "?v = (s t \<noteq> (\<forall>c\<in>set cs. s c))" if zero: "\<forall>j<?k - 2. \<not> s (w ! j)"
    proof -
      have a: "s1 t = s t" using tw by (intro frame) (auto dest: in_set_takeD)
      have "?c \<in> set cs" using 4 by simp
      then have "?c \<notin> set w" using cw by blast
      then have b: "s1 ?c = s ?c" by (intro frame) (auto dest: in_set_takeD)
      have "?k - 3 < ?k - 2" "?k - 3 + 2 = ?k - 1" using 4 by simp_all
      then have c: "s1 (w ! (?k - 3)) = (\<forall>i<?k - 1. s (cs ! i))"
        using vals [OF zero, of "?k - 3"] by simp
      have "(\<forall>c\<in>set cs. s c) = (\<forall>i<Suc (?k - 1). s (cs ! i))"
        using kn by (simp add: all_set_conv_all_nth)
      also have "\<dots> = (s ?c \<and> (\<forall>i<?k - 1. s (cs ! i)))"
        by (rule all_nth_Suc)
      finally show ?thesis using a b c by simp
    qed
    with sim show ?thesis by blast
  qed
qed

section \<open>The prefix predicate compiler\<close>

lemma fold_term_controls:
  "fold (\<lambda>j (cs, zs).
           if bits ! j = (1::int) then (cs @ [index ! j], zs)
           else (cs @ [index ! j], zs @ [index ! j]))
        js (cs0, zs0)
   = (cs0 @ map (\<lambda>j. index ! j) js,
      zs0 @ map (\<lambda>j. index ! j) (filter (\<lambda>j. bits ! j \<noteq> 1) js))"
  by (induction js arbitrary: cs0 zs0) simp_all

lemma term_controls_eq:
  "term_controls index bits i =
     (map (\<lambda>j. index ! j) (rev [Suc i..<length index]) @ [index ! i],
      map (\<lambda>j. index ! j) (filter (\<lambda>j. bits ! j \<noteq> 1) (rev [Suc i..<length index]))
        @ [index ! i])"
  by (simp add: term_controls_def Let_def fold_term_controls)

lemma flip_all_Cons:
  "z \<notin> set zs \<Longrightarrow> flip_all zs (s(z := \<not> s z)) = flip_all (z # zs) s"
  by (auto simp: flip_all_def fun_eq_iff)

lemma simulate_inv:
  "distinct zs \<Longrightarrow> simulate (map X zs) s = Some (flip_all zs s)"
proof (induction zs arbitrary: s)
  case Nil
  have "flip_all [] s = s" by (simp add: flip_all_def)
  then show "simulate (map X []) s = Some (flip_all [] s)" by simp
next
  case (Cons z zs s)
  then have z: "z \<notin> set zs" and d: "distinct zs" by simp_all
  have IH: "simulate (map X zs) s' = Some (flip_all zs s')" for s'
    using Cons.IH [OF d] .
  show "simulate (map X (z # zs)) s = Some (flip_all (z # zs) s)"
    using IH [of "s(z := \<not> s z)"] flip_all_Cons [OF z, of s] by simp
qed

lemma flip_all_twice: "flip_all zs (flip_all zs s) = s"
  by (auto simp: flip_all_def fun_eq_iff)

lemma flip_all_upd:
  "q \<notin> set zs \<Longrightarrow> flip_all zs (s(q := v)) = (flip_all zs s)(q := v)"
  by (auto simp: flip_all_def fun_eq_iff)

lemma drop_bit_less_step:
  fixes x C :: int
  shows "(drop_bit i x < drop_bit i C) =
     (drop_bit (Suc i) x < drop_bit (Suc i) C
      \<or> (drop_bit (Suc i) x = drop_bit (Suc i) C \<and> \<not> bit x i \<and> bit C i))"
proof -
  have x: "drop_bit (Suc i) x = drop_bit i x div 2" "bit x i = odd (drop_bit i x)"
    by (simp_all add: drop_bit_Suc drop_bit_half bit_iff_odd_drop_bit)
  have C: "drop_bit (Suc i) C = drop_bit i C div 2" "bit C i = odd (drop_bit i C)"
    by (simp_all add: drop_bit_Suc drop_bit_half bit_iff_odd_drop_bit)
  show ?thesis unfolding x C by presburger
qed

lemma drop_bit_eq_step:
  fixes x C :: int
  shows "(drop_bit i x = drop_bit i C) =
     (drop_bit (Suc i) x = drop_bit (Suc i) C \<and> bit x i = bit C i)"
proof -
  have x: "drop_bit (Suc i) x = drop_bit i x div 2" "bit x i = odd (drop_bit i x)"
    by (simp_all add: drop_bit_Suc drop_bit_half bit_iff_odd_drop_bit)
  have C: "drop_bit (Suc i) C = drop_bit i C div 2" "bit C i = odd (drop_bit i C)"
    by (simp_all add: drop_bit_Suc drop_bit_half bit_iff_odd_drop_bit)
  show ?thesis unfolding x C by presburger
qed

lemma drop_bit_small:
  fixes x :: int
  shows "0 \<le> x \<Longrightarrow> x < 2 ^ n \<Longrightarrow> drop_bit n x = 0"
  by (simp add: drop_bit_eq_div)

lemma all_from_Suc:
  assumes "i < n"
  shows "(\<forall>j. i \<le> j \<and> j < n \<longrightarrow> P j) = ((\<forall>j. Suc i \<le> j \<and> j < n \<longrightarrow> P j) \<and> P i)"
proof
  assume L: "\<forall>j. i \<le> j \<and> j < n \<longrightarrow> P j"
  have "P i" using L assms by simp
  moreover have "P j" if "Suc i \<le> j" "j < n" for j
    using L that by simp
  ultimately show "(\<forall>j. Suc i \<le> j \<and> j < n \<longrightarrow> P j) \<and> P i" by simp
next
  assume R: "(\<forall>j. Suc i \<le> j \<and> j < n \<longrightarrow> P j) \<and> P i"
  show "\<forall>j. i \<le> j \<and> j < n \<longrightarrow> P j"
  proof (intro allI impI)
    fix j
    assume j: "i \<le> j \<and> j < n"
    show "P j"
    proof (cases "j = i")
      case True
      then show ?thesis using R by simp
    next
      case False
      then have "Suc i \<le> j" using j by simp
      then show ?thesis using R j by simp
    qed
  qed
qed

lemma drop_bit_eq_bits:
  fixes x C :: int
  assumes "0 \<le> x" "x < 2 ^ n" "0 \<le> C" "C < 2 ^ n"
  shows "i \<le> n \<Longrightarrow>
     (drop_bit i x = drop_bit i C) = (\<forall>j. i \<le> j \<and> j < n \<longrightarrow> bit x j = bit C j)"
proof (induction i rule: inc_induct)
  case base
  show ?case using assms by (auto simp: drop_bit_small)
next
  case (step i)
  have "(\<forall>j. i \<le> j \<and> j < n \<longrightarrow> bit x j = bit C j) =
        ((\<forall>j. Suc i \<le> j \<and> j < n \<longrightarrow> bit x j = bit C j) \<and> bit x i = bit C i)"
    using step.hyps by (intro all_from_Suc) simp
  then show ?case using step.IH by (simp add: drop_bit_eq_step [of i])
qed

lemma bits_nth:
  fixes C :: int
  shows "i < n \<Longrightarrow> (map (\<lambda>i. drop_bit i C AND 1) [0..<n] ! i = 1) = bit C i"
  by (simp add: and_one_eq bit_iff_odd_drop_bit mod2_eq_if)

lemma term_controls_length:
  "i < length index \<Longrightarrow> length (fst (term_controls index bits i)) = length index - i"
  by (simp add: term_controls_eq)

lemma term_emits:
  assumes len: "length index - 2 \<le> length work" and i: "i < length index"
  shows "emits (let (controls, zero_controls) = term_controls index bits i in
                seqs [inv_gates zero_controls,
                      mcx_ladder controls flag work,
                      inv_gates zero_controls])
           (term_gates index bits flag work i)"
proof -
  obtain cs zs where cz: "term_controls index bits i = (cs, zs)"
    by (cases "term_controls index bits i")
  have "length cs = length index - i"
    using term_controls_length [OF i, of bits] cz by simp
  then have "length cs - 2 \<le> length work" using len by simp
  then have "emits (mcx_ladder cs flag work) (mcx_gates cs flag work)"
    by (rule mcx_ladder_emits)
  then have "emits (seqs [inv_gates zs, mcx_ladder cs flag work, inv_gates zs])
               (map X zs @ mcx_gates cs flag work @ map X zs @ [])"
    by (intro emits_seqs_Cons emits_seqs_Nil emits_inv_gates)
  then show ?thesis by (simp add: cz term_gates_def)
qed

lemma mark_less_emits:
  assumes len: "length index - 2 \<le> length work"
  shows "emits (mark_less_than_constant_disjoint_terms index flag C work)
           (mark_less_gates index flag C work)"
proof -
  let ?n = "length index"
  let ?bits = "map (\<lambda>i. drop_bit i C AND 1) [0..<?n]"
  let ?body = "\<lambda>i. if ?bits ! i \<noteq> 1 then no_op
                 else
                   let (controls, zero_controls) = term_controls index ?bits i in
                   seqs [inv_gates zero_controls,
                         mcx_ladder controls flag work,
                         inv_gates zero_controls]"
  let ?G = "\<lambda>i. if ?bits ! i \<noteq> 1 then [] else term_gates index ?bits flag work i"
  have "emits (?body i) (?G i)" if "i \<in> set (rev [0..<?n])" for i
  proof (cases "?bits ! i \<noteq> 1")
    case True
    then show ?thesis by (simp add: emits_no_op)
  next
    case False
    have "i < ?n" using that by simp
    from term_emits [OF len this, of ?bits flag] False show ?thesis by simp
  qed
  then have loop: "emits (for_each (rev [0..<?n]) ?body) (concat (map ?G (rev [0..<?n])))"
    by (rule emits_for_each)
  show ?thesis
  proof (cases "C \<le> 0")
    case True
    then show ?thesis
      by (simp add: mark_less_than_constant_disjoint_terms_def mark_less_gates_def emits_no_op)
  next
    case pos: False
    show ?thesis
    proof (cases "C \<ge> 2 ^ ?n")
      case True
      then show ?thesis using pos
        by (simp add: mark_less_than_constant_disjoint_terms_def mark_less_gates_def
            emits_append_line)
    next
      case False
      then show ?thesis using pos loop
        by (simp add: mark_less_than_constant_disjoint_terms_def mark_less_gates_def Let_def)
    qed
  qed
qed

lemma term_gates_sem:
  assumes dist: "distinct (index @ flag # work)" and i: "i < length index"
    and len: "length index - 2 \<le> length work" and zero: "\<forall>w\<in>set work. \<not> s w"
  shows "simulate (term_gates index bits flag work i) s =
     Some (s(flag := (s flag \<noteq>
        ((\<forall>j. i < j \<and> j < length index \<longrightarrow> s (index ! j) = (bits ! j = 1))
          \<and> \<not> s (index ! i)))))"
proof -
  let ?n = "length index"
  let ?js = "rev [Suc i..<?n]"
  let ?cs = "map (\<lambda>j. index ! j) ?js @ [index ! i]"
  let ?zs = "map (\<lambda>j. index ! j) (filter (\<lambda>j. bits ! j \<noteq> 1) ?js) @ [index ! i]"
  have d: "distinct index" "distinct work" "flag \<notin> set index" "flag \<notin> set work"
    "set index \<inter> set work = {}"
    using dist by auto
  have nth_eq: "(index ! a = index ! b) = (a = b)" if "a < ?n" "b < ?n" for a b
    using d(1) that by (simp add: nth_eq_iff_index_eq)
  have cs_sub: "set ?cs \<subseteq> set index" using i by auto
  have zs_sub: "set ?zs \<subseteq> set index" using i by auto
  have inj: "inj_on (\<lambda>j. index ! j) (set (filter (\<lambda>j. bits ! j \<noteq> 1) ?js))"
    by (rule inj_onI) (auto simp: nth_eq)
  have dz: "distinct ?zs"
    using inj i by (auto simp: distinct_map nth_eq)
  have in_zs: "(index ! j \<in> set ?zs) = (j = i \<or> bits ! j \<noteq> 1)" if "i \<le> j" "j < ?n" for j
    using that i by (auto simp: nth_eq)
  let ?s1 = "flip_all ?zs s"
  have s1_idx: "?s1 (index ! j) = (s (index ! j) = (bits ! j = 1))" if "i < j" "j < ?n" for j
    using in_zs [of j] that by (simp add: flip_all_def)
  have s1_i: "?s1 (index ! i) = (\<not> s (index ! i))"
    using in_zs [of i] i by (simp add: flip_all_def)
  have s1_flag: "?s1 flag = s flag"
    using zs_sub d(3) by (auto simp: flip_all_def)
  have s1_work: "\<not> ?s1 (work ! j)" if "j < length work" for j
  proof -
    have "work ! j \<in> set work" using that by simp
    then have "work ! j \<notin> set ?zs" "\<not> s (work ! j)" using zs_sub d(5) zero by auto
    then show ?thesis by (simp add: flip_all_def)
  qed
  have pre: "simulate (map X ?zs) s = Some ?s1" by (rule simulate_inv [OF dz])
  have "length ?cs = ?n - i" using i by simp
  then have lc: "length ?cs - 2 \<le> length work" using len by simp
  have "set ?cs \<inter> set work = {}" "flag \<notin> set ?cs"
    using cs_sub d by auto
  from mcx_gates_sem [OF d(2) this d(4) lc, of ?s1]
  obtain v where mid: "simulate (mcx_gates ?cs flag work) ?s1 = Some (?s1(flag := v))"
    and vdef: "(\<forall>j<length ?cs - 2. \<not> ?s1 (work ! j)) \<longrightarrow>
                 v = (?s1 flag \<noteq> (\<forall>c\<in>set ?cs. ?s1 c))"
    by blast
  have "\<forall>j<length ?cs - 2. \<not> ?s1 (work ! j)"
    using lc s1_work by auto
  then have v1: "v = (?s1 flag \<noteq> (\<forall>c\<in>set ?cs. ?s1 c))" using vdef by blast
  have "(\<forall>c\<in>set ?cs. ?s1 c) =
        ((\<forall>j. i < j \<and> j < ?n \<longrightarrow> ?s1 (index ! j)) \<and> ?s1 (index ! i))"
    by (auto simp: Suc_le_eq)
  then have v2: "v = (s flag \<noteq>
        ((\<forall>j. i < j \<and> j < ?n \<longrightarrow> s (index ! j) = (bits ! j = 1)) \<and> \<not> s (index ! i)))"
    using v1 s1_idx s1_i s1_flag by auto
  have "flag \<notin> set ?zs" using zs_sub d(3) by auto
  then have "flip_all ?zs (?s1(flag := v)) = (flip_all ?zs ?s1)(flag := v)"
    by (rule flip_all_upd)
  then have post: "simulate (map X ?zs) (?s1(flag := v)) = Some (s(flag := v))"
    using simulate_inv [OF dz, of "?s1(flag := v)"] by (simp add: flip_all_twice)
  have tg: "term_gates index bits flag work i = map X ?zs @ mcx_gates ?cs flag work @ map X ?zs"
    by (simp add: term_gates_def term_controls_eq)
  have "simulate (map X ?zs @ mcx_gates ?cs flag work @ map X ?zs) s = Some (s(flag := v))"
    by (rule simulate_append_Some [OF pre]) (rule simulate_append_Some [OF mid post])
  then show ?thesis unfolding tg v2 .
qed

lemma mark_less_loop_sem:
  fixes x C :: int
  assumes dist: "distinct (index @ flag # work)"
    and len: "length index - 2 \<le> length work"
    and zero: "\<forall>w\<in>set work. \<not> s w"
    and enc: "\<forall>j<length index. s (index ! j) = bit x j"
    and x: "0 \<le> x" "x < 2 ^ length index"
    and C: "0 \<le> C" "C < 2 ^ length index"
    and bits: "bits = map (\<lambda>i. drop_bit i C AND 1) [0..<length index]"
  shows "i \<le> length index \<Longrightarrow>
     simulate (concat (map (\<lambda>i. if bits ! i \<noteq> 1 then []
                                 else term_gates index bits flag work i)
                       (rev [i..<length index]))) s
     = Some (s(flag := (s flag \<noteq> (drop_bit i x < drop_bit i C))))"
proof (induction i rule: inc_induct)
  case base
  have "drop_bit (length index) x = 0" "drop_bit (length index) C = 0"
    using x C by (simp_all add: drop_bit_small)
  then have "s(flag := (s flag \<noteq> (drop_bit (length index) x < drop_bit (length index) C))) = s"
    by simp
  then show ?case by simp
next
  case (step i)
  let ?n = "length index"
  let ?G = "\<lambda>i. if bits ! i \<noteq> 1 then [] else term_gates index bits flag work i"
  let ?lt = "\<lambda>i. drop_bit i x < drop_bit i C"
  let ?s' = "s(flag := (s flag \<noteq> ?lt (Suc i)))"
  have i: "i < ?n" using step.hyps by simp
  have flag: "flag \<notin> set index" "flag \<notin> set work" using dist by auto
  have split: "rev [i..<?n] = rev [Suc i..<?n] @ [i]"
    using i by (simp add: upt_conv_Cons)
  have first: "simulate (concat (map ?G (rev [Suc i..<?n]))) s = Some ?s'"
    using step.IH .
  have bit_i: "(bits ! i = 1) = bit C i"
    unfolding bits using i by (rule bits_nth)
  have eq: "(drop_bit (Suc i) x = drop_bit (Suc i) C)
             = (\<forall>j. i < j \<and> j < ?n \<longrightarrow> bit x j = bit C j)"
    using drop_bit_eq_bits [OF x C, of "Suc i"] i by (simp add: Suc_le_eq)
  have second: "simulate (?G i) ?s' = Some (s(flag := (s flag \<noteq> ?lt i)))"
  proof (cases "bit C i")
    case False
    then have "?lt i = ?lt (Suc i)" by (simp add: drop_bit_less_step [of i])
    then show ?thesis using False bit_i by simp
  next
    case True
    have zero': "\<forall>w\<in>set work. \<not> ?s' w" using zero flag by auto
    have idx: "?s' (index ! j) = bit x j" if "j < ?n" for j
    proof -
      have "index ! j \<noteq> flag" using flag that nth_mem [of j index] by auto
      then show ?thesis using enc that by simp
    qed
    have bj: "(bits ! j = 1) = bit C j" if "j < ?n" for j
      unfolding bits using that by (rule bits_nth)
    let ?fires = "(\<forall>j. i < j \<and> j < ?n \<longrightarrow> ?s' (index ! j) = (bits ! j = 1))
                    \<and> \<not> ?s' (index ! i)"
    have fires: "?fires = ((drop_bit (Suc i) x = drop_bit (Suc i) C) \<and> \<not> bit x i)"
      unfolding eq using idx bj i by auto
    have val: "(?s' flag \<noteq> ?fires) = (s flag \<noteq> ?lt i)"
      unfolding fires using True by (auto simp: drop_bit_less_step [of i])
    have "simulate (term_gates index bits flag work i) ?s' = Some (?s'(flag := (?s' flag \<noteq> ?fires)))"
      by (rule term_gates_sem [OF dist i len zero'])
    then have "simulate (term_gates index bits flag work i) ?s'
                 = Some (?s'(flag := (s flag \<noteq> ?lt i)))"
      unfolding val .
    then show ?thesis using True bit_i by simp
  qed
  have "simulate (concat (map ?G (rev [Suc i..<?n])) @ ?G i) s
          = Some (s(flag := (s flag \<noteq> ?lt i)))"
    by (rule simulate_append_Some [OF first second])
  then show "simulate (concat (map ?G (rev [i..<?n]))) s
          = Some (s(flag := (s flag \<noteq> ?lt i)))"
    unfolding split by simp
qed

lemma mark_less_gates_sem:
  fixes x C :: int
  assumes dist: "distinct (index @ flag # work)"
    and len: "length index - 2 \<le> length work"
    and zero: "\<forall>w\<in>set work. \<not> s w"
    and enc: "\<forall>j<length index. s (index ! j) = bit x j"
    and x: "0 \<le> x" "x < 2 ^ length index"
  shows "simulate (mark_less_gates index flag C work) s = Some (s(flag := (s flag \<noteq> (x < C))))"
proof -
  consider "C \<le> 0" | "2 ^ length index \<le> C" | "0 < C" "C < 2 ^ length index"
    by linarith
  then show ?thesis
  proof cases
    case 1
    then have "\<not> x < C" using x by simp
    then have "s(flag := (s flag \<noteq> (x < C))) = s" by simp
    then show ?thesis using 1 by (simp add: mark_less_gates_def)
  next
    case 2
    then have "x < C" "\<not> C \<le> 0" using x by simp_all
    then show ?thesis using 2 by (simp add: mark_less_gates_def)
  next
    case 3
    then have C: "0 \<le> C" "C < 2 ^ length index" by simp_all
    have "simulate (concat (map (\<lambda>i. if map (\<lambda>i. drop_bit i C AND 1) [0..<length index] ! i \<noteq> 1 then []
                                 else term_gates index (map (\<lambda>i. drop_bit i C AND 1) [0..<length index])
                                        flag work i)
                       (rev [0..<length index]))) s
     = Some (s(flag := (s flag \<noteq> (drop_bit 0 x < drop_bit 0 C))))"
      by (rule mark_less_loop_sem [OF dist len zero enc x C refl]) simp
    then show ?thesis using 3 by (simp add: mark_less_gates_def Let_def)
  qed
qed

section \<open>The range composer\<close>

lemma mark_range_emits:
  assumes "length index - 2 \<le> length work"
  shows "emits (mark_range_lo_hi index flag_out tmp_hi tmp_lo lo hi work)
           (mark_range_gates index flag_out tmp_hi tmp_lo lo hi work)"
proof -
  have "emits (mark_range_lo_hi index flag_out tmp_hi tmp_lo lo hi work)
          (mark_less_gates index tmp_hi hi work @ mark_less_gates index tmp_lo lo work
            @ [X tmp_lo] @ [CCX tmp_hi tmp_lo flag_out] @ [X tmp_lo] @ [])"
    unfolding mark_range_lo_hi_def
    by (intro emits_seqs_Cons emits_seqs_Nil emits_append_line mark_less_emits assms)
  then show ?thesis by (simp add: mark_range_gates_def and_gates_def)
qed

lemma uncompute_range_emits:
  assumes "length index - 2 \<le> length work"
  shows "emits (uncompute_range_lo_hi index flag_out tmp_hi tmp_lo lo hi work)
           (uncompute_range_gates index flag_out tmp_hi tmp_lo lo hi work)"
proof -
  have "emits (uncompute_range_lo_hi index flag_out tmp_hi tmp_lo lo hi work)
          ([X tmp_lo] @ [CCX tmp_hi tmp_lo flag_out] @ [X tmp_lo]
            @ mark_less_gates index tmp_lo lo work @ mark_less_gates index tmp_hi hi work @ [])"
    unfolding uncompute_range_lo_hi_def
    by (intro emits_seqs_Cons emits_seqs_Nil emits_append_line mark_less_emits assms)
  then show ?thesis by (simp add: uncompute_range_gates_def and_gates_def)
qed

lemma and_gates_sem:
  assumes "tmp_lo \<noteq> flag_out" "tmp_hi \<noteq> flag_out" "tmp_hi \<noteq> tmp_lo"
  shows "simulate (and_gates flag_out tmp_hi tmp_lo) s
           = Some (s(flag_out := (s flag_out \<noteq> (s tmp_hi \<and> \<not> s tmp_lo))))"
  using assms by (auto simp: and_gates_def fun_eq_iff)

lemma holds_index_upd:
  assumes h: "holds_index index flags work s x" and f: "f \<in> set flags"
  shows "holds_index index flags work (s(f := v)) x"
proof -
  have out: "f \<notin> set index" "f \<notin> set work"
    using h f unfolding holds_index_def by auto
  have "index ! j \<noteq> f" if "j < length index" for j
    using out(1) nth_mem [OF that] by auto
  then have "\<forall>j<length index. (s(f := v)) (index ! j) = bit x j"
    using h unfolding holds_index_def by simp
  moreover have "\<forall>w\<in>set work. \<not> (s(f := v)) w"
    using h out(2) unfolding holds_index_def by auto
  ultimately show ?thesis using h unfolding holds_index_def by simp
qed

lemma holds_index_less:
  assumes h: "holds_index index flags work s x" and f: "f \<in> set flags"
  shows "simulate (mark_less_gates index f C work) s = Some (s(f := (s f \<noteq> (x < C))))"
proof -
  have "distinct (index @ f # work)" using h f unfolding holds_index_def by auto
  then show ?thesis
    using h unfolding holds_index_def by (intro mark_less_gates_sem) simp_all
qed

lemma mark_range_gates_sem:
  assumes h: "holds_index index [flag_out, tmp_hi, tmp_lo] work s x"
  shows "simulate (mark_range_gates index flag_out tmp_hi tmp_lo lo hi work) s
     = Some (s(tmp_hi := (s tmp_hi \<noteq> (x < hi)), tmp_lo := (s tmp_lo \<noteq> (x < lo)),
              flag_out := (s flag_out \<noteq>
                 ((s tmp_hi \<noteq> (x < hi)) \<and> \<not> (s tmp_lo \<noteq> (x < lo))))))"
proof -
  let ?fs = "[flag_out, tmp_hi, tmp_lo]"
  let ?s1 = "s(tmp_hi := (s tmp_hi \<noteq> (x < hi)))"
  let ?s2 = "?s1(tmp_lo := (s tmp_lo \<noteq> (x < lo)))"
  have ne: "tmp_lo \<noteq> flag_out" "tmp_hi \<noteq> flag_out" "tmp_hi \<noteq> tmp_lo"
    using h unfolding holds_index_def by auto
  have 1: "simulate (mark_less_gates index tmp_hi hi work) s = Some ?s1"
    by (rule holds_index_less [OF h]) simp
  have h1: "holds_index index ?fs work ?s1 x"
    by (rule holds_index_upd [OF h]) simp
  have "simulate (mark_less_gates index tmp_lo lo work) ?s1
          = Some (?s1(tmp_lo := (?s1 tmp_lo \<noteq> (x < lo))))"
    by (rule holds_index_less [OF h1]) simp
  then have 2: "simulate (mark_less_gates index tmp_lo lo work) ?s1 = Some ?s2"
    using ne by simp
  have "simulate (and_gates flag_out tmp_hi tmp_lo) ?s2
          = Some (?s2(flag_out := (?s2 flag_out \<noteq> (?s2 tmp_hi \<and> \<not> ?s2 tmp_lo))))"
    by (rule and_gates_sem [OF ne])
  then have 3: "simulate (and_gates flag_out tmp_hi tmp_lo) ?s2
          = Some (?s2(flag_out := (s flag_out \<noteq>
                 ((s tmp_hi \<noteq> (x < hi)) \<and> \<not> (s tmp_lo \<noteq> (x < lo))))))"
    using ne by simp
  show ?thesis
    unfolding mark_range_gates_def
    by (rule simulate_append_Some [OF 1]) (rule simulate_append_Some [OF 2 3])
qed

lemma uncompute_range_gates_sem:
  assumes h: "holds_index index [flag_out, tmp_hi, tmp_lo] work s x"
  shows "simulate (uncompute_range_gates index flag_out tmp_hi tmp_lo lo hi work) s
     = Some (s(flag_out := (s flag_out \<noteq> (s tmp_hi \<and> \<not> s tmp_lo)),
              tmp_lo := (s tmp_lo \<noteq> (x < lo)), tmp_hi := (s tmp_hi \<noteq> (x < hi))))"
proof -
  let ?fs = "[flag_out, tmp_hi, tmp_lo]"
  let ?s1 = "s(flag_out := (s flag_out \<noteq> (s tmp_hi \<and> \<not> s tmp_lo)))"
  let ?s2 = "?s1(tmp_lo := (s tmp_lo \<noteq> (x < lo)))"
  let ?s3 = "?s2(tmp_hi := (s tmp_hi \<noteq> (x < hi)))"
  have ne: "tmp_lo \<noteq> flag_out" "tmp_hi \<noteq> flag_out" "tmp_hi \<noteq> tmp_lo"
    using h unfolding holds_index_def by auto
  have 1: "simulate (and_gates flag_out tmp_hi tmp_lo) s = Some ?s1"
    by (rule and_gates_sem [OF ne])
  have h1: "holds_index index ?fs work ?s1 x"
    by (rule holds_index_upd [OF h]) simp
  have "simulate (mark_less_gates index tmp_lo lo work) ?s1
          = Some (?s1(tmp_lo := (?s1 tmp_lo \<noteq> (x < lo))))"
    by (rule holds_index_less [OF h1]) simp
  then have 2: "simulate (mark_less_gates index tmp_lo lo work) ?s1 = Some ?s2"
    using ne by simp
  have h2: "holds_index index ?fs work ?s2 x"
    by (rule holds_index_upd [OF h1]) simp
  have "simulate (mark_less_gates index tmp_hi hi work) ?s2
          = Some (?s2(tmp_hi := (?s2 tmp_hi \<noteq> (x < hi))))"
    by (rule holds_index_less [OF h2]) simp
  then have 3: "simulate (mark_less_gates index tmp_hi hi work) ?s2 = Some ?s3"
    using ne by simp
  show ?thesis
    unfolding uncompute_range_gates_def
    by (rule simulate_append_Some [OF 1]) (rule simulate_append_Some [OF 2 3])
qed

lemma holds_indexI:
  assumes "distinct (index @ flags @ work)" "length index - 2 \<le> length work"
    "0 \<le> x" "x < 2 ^ length index" "\<forall>j<length index. s (index ! j) = bit x j"
    "\<forall>w\<in>set work. \<not> s w"
  shows "holds_index index flags work s x"
  using assms unfolding holds_index_def by simp

section \<open>The phase oracle\<close>

lemma phase_oracle_emits:
  assumes len: "length index - 2 \<le> length work"
  shows "emits (phase_oracle_qfilter index flag_range tmp_hi tmp_lo pred_type lo hi work)
     ((if pred_type = ''qid_lt'' then mark_less_gates index flag_range hi work
       else mark_range_gates index flag_range tmp_hi tmp_lo lo hi work)
      @ [Z flag_range]
      @ (if pred_type = ''qid_lt'' then mark_less_gates index flag_range hi work
         else uncompute_range_gates index flag_range tmp_hi tmp_lo lo hi work) @ [])"
proof (cases "pred_type = ''qid_lt''")
  case True
  have "emits (seqs [mark_less_than_constant_disjoint_terms index flag_range hi work,
                     append_line (Z flag_range),
                     mark_less_than_constant_disjoint_terms index flag_range hi work])
          (mark_less_gates index flag_range hi work @ [Z flag_range]
            @ mark_less_gates index flag_range hi work @ [])"
    by (intro emits_seqs_Cons emits_seqs_Nil emits_append_line mark_less_emits len)
  then show ?thesis using True by (simp add: phase_oracle_qfilter_def)
next
  case False
  have "emits (seqs [mark_range_lo_hi index flag_range tmp_hi tmp_lo lo hi work,
                     append_line (Z flag_range),
                     uncompute_range_lo_hi index flag_range tmp_hi tmp_lo lo hi work])
          (mark_range_gates index flag_range tmp_hi tmp_lo lo hi work @ [Z flag_range]
            @ uncompute_range_gates index flag_range tmp_hi tmp_lo lo hi work @ [])"
    by (intro emits_seqs_Cons emits_seqs_Nil emits_append_line mark_range_emits
        uncompute_range_emits len)
  then show ?thesis using False by (simp add: phase_oracle_qfilter_def)
qed

lemma mark_less_twice:
  assumes h: "holds_index index flags work s x" and f: "f \<in> set flags"
  shows "simulate (mark_less_gates index f C work @ mark_less_gates index f C work) s = Some s"
proof -
  let ?s1 = "s(f := (s f \<noteq> (x < C)))"
  have 1: "simulate (mark_less_gates index f C work) s = Some ?s1"
    by (rule holds_index_less [OF h f])
  have h1: "holds_index index flags work ?s1 x"
    by (rule holds_index_upd [OF h f])
  have "?s1(f := (?s1 f \<noteq> (x < C))) = s" by (auto simp: fun_eq_iff)
  then have 2: "simulate (mark_less_gates index f C work) ?s1 = Some s"
    using holds_index_less [OF h1 f, of C] by simp
  show ?thesis by (rule simulate_append_Some [OF 1 2])
qed

lemma range_compute_uncompute:
  assumes h: "holds_index index [flag_out, tmp_hi, tmp_lo] work s x"
  shows "simulate (mark_range_gates index flag_out tmp_hi tmp_lo lo hi work
                   @ uncompute_range_gates index flag_out tmp_hi tmp_lo lo hi work) s = Some s"
proof -
  let ?fs = "[flag_out, tmp_hi, tmp_lo]"
  let ?a = "s tmp_hi \<noteq> (x < hi)"
  let ?b = "s tmp_lo \<noteq> (x < lo)"
  let ?c = "s flag_out \<noteq> (?a \<and> \<not> ?b)"
  let ?s1 = "s(tmp_hi := ?a, tmp_lo := ?b, flag_out := ?c)"
  have ne: "tmp_lo \<noteq> flag_out" "tmp_hi \<noteq> flag_out" "tmp_hi \<noteq> tmp_lo"
    using h unfolding holds_index_def by auto
  have 1: "simulate (mark_range_gates index flag_out tmp_hi tmp_lo lo hi work) s = Some ?s1"
    by (rule mark_range_gates_sem [OF h])
  have h1: "holds_index index ?fs work ?s1 x"
    by (intro holds_index_upd h) simp_all
  have "?s1(flag_out := (?s1 flag_out \<noteq> (?s1 tmp_hi \<and> \<not> ?s1 tmp_lo)),
              tmp_lo := (?s1 tmp_lo \<noteq> (x < lo)), tmp_hi := (?s1 tmp_hi \<noteq> (x < hi))) = s"
    using ne by (auto simp: fun_eq_iff)
  then have 2: "simulate (uncompute_range_gates index flag_out tmp_hi tmp_lo lo hi work) ?s1
                  = Some s"
    using uncompute_range_gates_sem [OF h1, of lo hi] by simp
  show ?thesis by (rule simulate_append_Some [OF 1 2])
qed

section \<open>Routines do not look at the buffer\<close>

lemma uniformD: "uniform e \<Longrightarrow> e lines = (fst (e []), lines @ snd (e []))"
  unfolding uniform_def by blast

lemma uniformI:
  assumes "\<And>lines. e lines = (r, lines @ gs)" and "list_all is_gate gs"
  shows "uniform e"
proof -
  have "e [] = (r, gs)" using assms(1) [of "[]"] by simp
  then show ?thesis using assms by (simp add: uniform_def)
qed

lemma uniform_append_line: "is_gate g \<Longrightarrow> uniform (append_line g)"
  by (rule uniformI [where r = None and gs = "[g]"]) (simp_all add: append_line_def)

lemma uniform_raise: "uniform (raise e)"
  by (rule uniformI [where r = "Some e" and gs = "[]"]) (simp_all add: raise_def)

lemma uniform_no_op: "uniform no_op"
  by (rule uniformI [where r = None and gs = "[]"]) (simp_all add: no_op_def)

lemma uniform_for_each:
  "(\<And>x. x \<in> set xs \<Longrightarrow> uniform (body x)) \<Longrightarrow> uniform (for_each xs body)"
proof (induction xs)
  case Nil
  show ?case by (rule uniformI [where r = None and gs = "[]"]) simp_all
next
  case (Cons x xs)
  have hd: "uniform (body x)" using Cons.prems by simp
  have tl: "uniform (for_each xs body)" using Cons.IH Cons.prems by simp
  obtain r gs where b: "body x [] = (r, gs)" by (cases "body x []")
  obtain r' gs' where t: "for_each xs body [] = (r', gs')" by (cases "for_each xs body []")
  have gates: "list_all is_gate gs" "list_all is_gate gs'"
    using hd tl unfolding uniform_def b t by simp_all
  have bx: "body x lines = (r, lines @ gs)" for lines
    using uniformD [OF hd, of lines] b by simp
  have tx: "for_each xs body lines = (r', lines @ gs')" for lines
    using uniformD [OF tl, of lines] t by simp
  show ?case
  proof (cases r)
    case None
    show ?thesis
      by (rule uniformI [where r = r' and gs = "gs @ gs'"])
        (simp_all add: bx tx None gates)
  next
    case (Some e)
    show ?thesis
      by (rule uniformI [where r = "Some e" and gs = gs])
        (simp_all add: bx Some gates)
  qed
qed

lemma uniform_seqs: "(\<And>e. e \<in> set es \<Longrightarrow> uniform e) \<Longrightarrow> uniform (seqs es)"
  unfolding seqs_def by (rule uniform_for_each)

lemma uniform_inv_gates: "uniform (inv_gates zs)"
  unfolding inv_gates_def by (intro uniform_for_each uniform_append_line) simp

lemma uniform_mcx_ladder: "uniform (mcx_ladder cs t w)"
  unfolding mcx_ladder_def Let_def
  by (auto intro!: uniform_seqs uniform_for_each uniform_append_line uniform_raise)

lemma uniform_mark_less: "uniform (mark_less_than_constant_disjoint_terms index flag C work)"
  unfolding mark_less_than_constant_disjoint_terms_def Let_def
  by (auto intro!: uniform_seqs uniform_for_each uniform_append_line uniform_no_op
      uniform_inv_gates uniform_mcx_ladder split: prod.splits)

lemma uniform_mark_range: "uniform (mark_range_lo_hi index flag_out tmp_hi tmp_lo lo hi work)"
  unfolding mark_range_lo_hi_def
  by (auto intro!: uniform_seqs uniform_append_line uniform_mark_less)

lemma uniform_uncompute_range:
  "uniform (uncompute_range_lo_hi index flag_out tmp_hi tmp_lo lo hi work)"
  unfolding uncompute_range_lo_hi_def
  by (auto intro!: uniform_seqs uniform_append_line uniform_mark_less)

lemma uniform_phase_oracle:
  "uniform (phase_oracle_qfilter index flag_range tmp_hi tmp_lo pred_type lo hi work)"
  unfolding phase_oracle_qfilter_def
  by (auto intro!: uniform_seqs uniform_append_line uniform_mark_less uniform_mark_range
      uniform_uncompute_range)

lemma uniform_diffusion: "uniform (diffusion_about_uniform index work)"
  unfolding diffusion_about_uniform_def Let_def
  by (auto intro!: uniform_seqs uniform_for_each uniform_append_line uniform_raise
      uniform_mcx_ladder)

lemma uniform_prepare: "uniform (prepare_uniform index)"
  unfolding prepare_uniform_def by (intro uniform_for_each uniform_append_line) simp

lemma uniform_final:
  "uniform (final_compute_and_measure_flag index flag_out tmp_hi tmp_lo pred_type lo hi work)"
  unfolding final_compute_and_measure_flag_def
  by (auto intro!: uniform_seqs uniform_append_line uniform_mark_less uniform_mark_range)

section \<open>The circuit assembler\<close>

lemma succeedsI: "emits e gs \<Longrightarrow> succeeds e"
  unfolding succeeds_def by blast

lemma succeeds_for_each:
  "(\<And>x. x \<in> set xs \<Longrightarrow> succeeds (body x)) \<Longrightarrow> succeeds (for_each xs body)"
proof (induction xs)
  case Nil
  have "emits (for_each [] body) []" by (simp add: emits_def)
  then show ?case by (rule succeedsI)
next
  case (Cons x xs)
  obtain g where g: "emits (body x) g"
    using Cons.prems [of x] unfolding succeeds_def by auto
  obtain gs where gs: "emits (for_each xs body) gs"
    using Cons.IH Cons.prems unfolding succeeds_def by auto
  have "emits (for_each (x # xs) body) (g @ gs)"
    unfolding emits_def by (simp add: emitsD [OF g] emitsD [OF gs])
  then show ?case by (rule succeedsI)
qed

lemma succeeds_seqs: "(\<And>e. e \<in> set es \<Longrightarrow> succeeds e) \<Longrightarrow> succeeds (seqs es)"
  unfolding seqs_def by (rule succeeds_for_each)

lemma succeeds_append_line: "succeeds (append_line g)"
  by (rule succeedsI [OF emits_append_line])

lemma succeeds_mcx_ladder: "length cs - 2 \<le> length w \<Longrightarrow> succeeds (mcx_ladder cs t w)"
  by (rule succeedsI [OF mcx_ladder_emits])

lemma succeeds_phase_oracle:
  "length index - 2 \<le> length work \<Longrightarrow>
   succeeds (phase_oracle_qfilter index flag_range tmp_hi tmp_lo pred_type lo hi work)"
  by (rule succeedsI [OF phase_oracle_emits])

lemma succeeds_diffusion:
  assumes "index \<noteq> []" and "length index - 2 \<le> length work"
  shows "succeeds (diffusion_about_uniform index work)"
proof -
  have "length (drop 1 index) - 2 \<le> length work" using assms(2) by simp
  then have "succeeds (mcx_ladder (drop 1 index) (index ! 0) work)"
    by (rule succeeds_mcx_ladder)
  then show ?thesis
    unfolding diffusion_about_uniform_def Let_def using assms(1)
    by (auto intro!: succeeds_seqs succeeds_for_each succeeds_append_line)
qed

lemma succeeds_final:
  assumes "length index - 2 \<le> length work"
  shows "succeeds (final_compute_and_measure_flag index flag_out tmp_hi tmp_lo pred_type lo hi work)"
  unfolding final_compute_and_measure_flag_def
  by (auto intro!: succeeds_seqs succeeds_append_line
      succeedsI [OF mark_less_emits] succeedsI [OF mark_range_emits] assms)

lemma succeeds_circuit_body:
  assumes "index \<noteq> []" and "length index - 2 \<le> length work"
  shows "succeeds (circuit_body index flag_range tmp_hi tmp_lo pred_type lo hi work reps)"
  unfolding circuit_body_def prepare_uniform_def
  by (auto intro!: succeeds_seqs succeeds_for_each succeeds_append_line
      succeeds_phase_oracle succeeds_diffusion succeeds_final assms)

lemma uniform_circuit_body:
  "uniform (circuit_body index flag_range tmp_hi tmp_lo pred_type lo hi work reps)"
  unfolding circuit_body_def
  by (auto intro!: uniform_seqs uniform_for_each uniform_prepare uniform_phase_oracle
      uniform_diffusion uniform_final)

lemma register_declarations_append:
  "register_declarations (a @ b) = register_declarations a @ register_declarations b"
  by (induction a rule: register_declarations.induct) simp_all

lemma register_declarations_gates:
  "list_all is_gate gs \<Longrightarrow> register_declarations gs = []"
  by (induction gs rule: register_declarations.induct) simp_all

lemma py_range_length: "length (py_range a b) = nat (b - a)"
  by (simp add: py_range_def)

lemma py_range_Nil: "(py_range a b = []) = (b \<le> a)"
  by (auto simp: py_range_def)

lemma uniform_layout_body: "uniform (layout_body n_index flags_count pred_type lo hi reps)"
  unfolding layout_body_def Let_def by (rule uniform_circuit_body)

lemma layout_body_run:
  "layout_body n_index flags_count pred_type lo hi reps lines =
     (fst (layout_body n_index flags_count pred_type lo hi reps []),
      lines @ snd (layout_body n_index flags_count pred_type lo hi reps []))"
  by (rule uniformD [OF uniform_layout_body])

lemma layout_body_gates:
  "list_all is_gate (snd (layout_body n_index flags_count pred_type lo hi reps []))"
  using uniform_layout_body [of n_index flags_count pred_type lo hi reps]
  unfolding uniform_def by blast

lemma layout_body_returns:
  assumes "1 \<le> n_index"
  shows "fst (layout_body n_index flags_count pred_type lo hi reps []) = None"
proof -
  let ?index = "py_range 0 n_index"
  let ?work = "py_range (n_index + flags_count) (n_index + flags_count + max 0 (n_index - 2))"
  have "?index \<noteq> []" using assms by (simp add: py_range_Nil)
  moreover have "length ?index - 2 \<le> length ?work"
    by (simp add: py_range_length)
  ultimately have "succeeds (layout_body n_index flags_count pred_type lo hi reps)"
    unfolding layout_body_def Let_def by (rule succeeds_circuit_body)
  then obtain gs where "emits (layout_body n_index flags_count pred_type lo hi reps) gs"
    unfolding succeeds_def by blast
  from emitsD [OF this, of "[]"] show ?thesis by simp
qed

text \<open>The builders in terms of the common body.\<close>

lemma grover_lines_eq:
  "build_qasm2_grover_qfilter_lines header n_index iterations pred_type lo hi flags_count =
     (if flags_count \<le> 0 then Inl IndexError
      else case fst (layout_body n_index flags_count pred_type lo hi
                       (nat (max 0 iterations)) []) of
             Some e \<Rightarrow> Inl e
           | None \<Rightarrow>
               Inr ([Raw header, QReg (n_index + flags_count + max 0 (n_index - 2)),
                     Raw ''creg c[1];'',
                     Raw (grover_comment n_index iterations pred_type lo hi)]
                    @ snd (layout_body n_index flags_count pred_type lo hi
                             (nat (max 0 iterations)) [])))"
proof -
  let ?body = "layout_body n_index flags_count pred_type lo hi (nat (max 0 iterations))"
  let ?lines = "[Raw header, QReg (n_index + flags_count + max 0 (n_index - 2)),
                 Raw ''creg c[1];'',
                 Raw (grover_comment n_index iterations pred_type lo hi)]"
  have "build_qasm2_grover_qfilter_lines header n_index iterations pred_type lo hi flags_count =
     (if py_range n_index (n_index + flags_count) = [] then Inl IndexError
      else case ?body ?lines of (Some e, _) \<Rightarrow> Inl e | (None, lines') \<Rightarrow> Inr lines')"
    by (simp add: build_qasm2_grover_qfilter_lines_def layout_body_def circuit_body_def Let_def)
  also have "\<dots> = (if flags_count \<le> 0 then Inl IndexError
         else case fst (?body []) of
                Some e \<Rightarrow> Inl e
              | None \<Rightarrow> Inr (?lines @ snd (?body [])))"
    unfolding layout_body_run [of _ _ _ _ _ _ ?lines]
    by (simp add: py_range_Nil split: option.splits)
  finally show ?thesis .
qed

lemma mlae_lines_eq:
  "build_qasm2_mlae_schedule_element_lines header n_index k pred_type lo hi flags_count =
     (if flags_count \<le> 0 then Inl IndexError
      else case fst (layout_body n_index flags_count pred_type lo hi (nat (max 0 k)) []) of
             Some e \<Rightarrow> Inl e
           | None \<Rightarrow>
               Inr ([Raw header, QReg (n_index + flags_count + max 0 (n_index - 2)),
                     Raw ''creg c[1];'',
                     Raw (mlae_comment n_index k pred_type lo hi)]
                    @ snd (layout_body n_index flags_count pred_type lo hi
                             (nat (max 0 k)) [])))"
proof -
  let ?body = "layout_body n_index flags_count pred_type lo hi (nat (max 0 k))"
  let ?lines = "[Raw header, QReg (n_index + flags_count + max 0 (n_index - 2)),
                 Raw ''creg c[1];'',
                 Raw (mlae_comment n_index k pred_type lo hi)]"
  have "build_qasm2_mlae_schedule_element_lines header n_index k pred_type lo hi flags_count =
     (if py_range n_index (n_index + flags_count) = [] then Inl IndexError
      else case ?body ?lines of (Some e, _) \<Rightarrow> Inl e | (None, lines') \<Rightarrow> Inr lines')"
    by (simp add: build_qasm2_mlae_schedule_element_lines_def layout_body_def
        circuit_body_def Let_def)
  also have "\<dots> = (if flags_count \<le> 0 then Inl IndexError
         else case fst (?body []) of
                Some e \<Rightarrow> Inl e
              | None \<Rightarrow> Inr (?lines @ snd (?body [])))"
    unfolding layout_body_run [of _ _ _ _ _ _ ?lines]
    by (simp add: py_range_Nil split: option.splits)
  finally show ?thesis .
qed

lemma grover_lines_returns:
  assumes "1 \<le> n_index" and "1 \<le> flags_count"
  shows "\<exists>gs. build_qasm2_grover_qfilter_lines header n_index iterations pred_type lo hi
                 flags_count
               = Inr ([Raw header, QReg (n_index + flags_count + max 0 (n_index - 2)),
                       Raw ''creg c[1];'',
                       Raw (grover_comment n_index iterations pred_type lo hi)] @ gs)
             \<and> list_all is_gate gs"
  using assms layout_body_gates
  by (simp add: grover_lines_eq layout_body_returns)

lemma mlae_lines_returns:
  assumes "1 \<le> n_index" and "1 \<le> flags_count"
  shows "\<exists>gs. build_qasm2_mlae_schedule_element_lines header n_index k pred_type lo hi
                 flags_count
               = Inr ([Raw header, QReg (n_index + flags_count + max 0 (n_index - 2)),
                       Raw ''creg c[1];'',
                       Raw (mlae_comment n_index k pred_type lo hi)] @ gs)
             \<and> list_all is_gate gs"
  using assms layout_body_gates
  by (simp add: mlae_lines_eq layout_body_returns)

lemma lines_differ_in_comment:
  "build_qasm2_mlae_schedule_element_lines header n_index k pred_type lo hi flags_count
     = map_sum id (\<lambda>ls. ls[3 := Raw (mlae_comment n_index k pred_type lo hi)])
         (build_qasm2_grover_qfilter_lines header n_index k pred_type lo hi flags_count)"
  "build_qasm2_grover_qfilter_lines header n_index k pred_type lo hi flags_count
     = map_sum id (\<lambda>ls. ls[3 := Raw (grover_comment n_index k pred_type lo hi)])
         (build_qasm2_mlae_schedule_element_lines header n_index k pred_type lo hi flags_count)"
  by (simp_all add: grover_lines_eq mlae_lines_eq split: option.splits)

lemma oracle_other_tag:
  "pred_type \<noteq> ''qid_lt'' \<Longrightarrow>
   phase_oracle_qfilter index flag_range tmp_hi tmp_lo pred_type lo hi work
     = phase_oracle_qfilter index flag_range tmp_hi tmp_lo ''qid_range'' lo hi work"
  by (simp add: phase_oracle_qfilter_def)

lemma final_other_tag:
  "pred_type \<noteq> ''qid_lt'' \<Longrightarrow>
   final_compute_and_measure_flag index flag_out tmp_hi tmp_lo pred_type lo hi work
     = final_compute_and_measure_flag index flag_out tmp_hi tmp_lo ''qid_range'' lo hi work"
  by (simp add: final_compute_and_measure_flag_def)

lemma body_other_tag:
  "pred_type \<noteq> ''qid_lt'' \<Longrightarrow>
   layout_body n_index flags_count pred_type lo hi reps
     = layout_body n_index flags_count ''qid_range'' lo hi reps"
  by (simp add: layout_body_def circuit_body_def phase_oracle_qfilter_def
      final_compute_and_measure_flag_def)

lemma lines_other_tag:
  assumes "pred_type \<noteq> ''qid_lt''"
  shows "build_qasm2_grover_qfilter_lines header n_index iterations pred_type lo hi flags_count
     = map_sum id (\<lambda>ls. ls[3 := Raw (grover_comment n_index iterations pred_type lo hi)])
         (build_qasm2_grover_qfilter_lines header n_index iterations ''qid_range'' lo hi
            flags_count)"
    and "build_qasm2_mlae_schedule_element_lines header n_index k pred_type lo hi flags_count
     = map_sum id (\<lambda>ls. ls[3 := Raw (mlae_comment n_index k pred_type lo hi)])
         (build_qasm2_mlae_schedule_element_lines header n_index k ''qid_range'' lo hi
            flags_count)"
  by (simp_all add: grover_lines_eq mlae_lines_eq body_other_tag [OF assms]
      split: option.splits)

section \<open>The ladder decomposer\<close>

text \<open>
  Claim C6. \<^verbatim>\<open>mcx_ladder\<close> raises exactly when it has at least three controls and fewer
  work qubits than the number of controls minus two; the exception is the
  \<^verbatim>\<open>ValueError\<close> of the source, and the buffer is then the one that was passed in.
\<close>

theorem mcx_ladder_error_iff:
  "(fst (mcx_ladder controls target work lines) \<noteq> None)
     = (3 \<le> length controls \<and> length work < length controls - 2)
   \<and> (fst (mcx_ladder controls target work lines) \<noteq> None \<longrightarrow>
        mcx_ladder controls target work lines = (Some ValueError, lines))"
proof (cases "3 \<le> length controls \<and> length work < length controls - 2")
  case True
  then show ?thesis by (simp add: mcx_ladder_raises)
next
  case False
  then have "length controls - 2 \<le> length work" by linarith
  from emitsD [OF mcx_ladder_emits [OF this]] False show ?thesis by simp
qed

theorem mcx_ladder_error_iff_witness:
  "mcx_ladder [0, 1, 2, 3] 4 [5] [H 0] = (Some ValueError, [H 0])"
  using mcx_ladder_error_iff [of "[0, 1, 2, 3]" 4 "[5]" "[H 0]"] by simp

text \<open>
  Claim C8. With at least three controls and enough work qubits, \<^verbatim>\<open>mcx_ladder\<close>
  appends exactly \<open>2 (k - 2) + 1\<close> statements, every one a doubly controlled NOT.
\<close>

theorem mcx_ladder_gate_count:
  assumes "3 \<le> length controls" and "length controls - 2 \<le> length work"
  shows "\<exists>gs. mcx_ladder controls target work lines = (None, lines @ gs)
           \<and> length gs = 2 * (length controls - 2) + 1 \<and> list_all is_ccx gs"
  using emitsD [OF mcx_ladder_emits [OF assms(2)]] mcx_gates_ccx [OF assms(1)]
  by blast

theorem mcx_ladder_gate_count_witness:
  "\<exists>gs. mcx_ladder [0, 1, 2, 3] 4 [5, 6] [] = (None, gs)
      \<and> length gs = 5 \<and> list_all is_ccx gs"
  using mcx_ladder_gate_count [of "[0, 1, 2, 3]" "[5, 6]" 4 "[]"] by simp

text \<open>
  Claim C2, as the code has it. The qubits are pairwise distinct as far as needed: the
  work qubits are distinct, and neither a control nor the target is a work qubit or
  (for the target) a control. Then, for every basis state, simulating the appended
  statements changes the target only, so every control and work qubit ends in its
  initial value; and when the work qubits the ladder uses (the first \<open>k - 2\<close>) start
  at 0, the target ends as its initial value XOR the AND of all controls.
\<close>

theorem mcx_ladder_simulation:
  assumes "distinct work" and "set controls \<inter> set work = {}"
    and "target \<notin> set controls" and "target \<notin> set work"
    and "length controls - 2 \<le> length work"
  shows "\<exists>gs v. mcx_ladder controls target work lines = (None, lines @ gs)
            \<and> simulate gs s = Some (s(target := v))
            \<and> ((\<forall>j<length controls - 2. \<not> s (work ! j)) \<longrightarrow>
                   v = (s target \<noteq> list_all s controls))"
  using emitsD [OF mcx_ladder_emits [OF assms(5)]]
    mcx_gates_sem [OF assms, of s]
  unfolding list_all_iff by blast

theorem mcx_ladder_simulation_witness:
  "\<exists>gs. mcx_ladder [0, 1, 2] 3 [4] [] = (None, gs)
      \<and> simulate gs (all_zero(0 := True, 1 := True, 2 := True))
          = Some (all_zero(0 := True, 1 := True, 2 := True, 3 := True))"
proof -
  let ?s = "all_zero(0 := True, 1 := True, 2 := True)"
  have "\<exists>gs v. mcx_ladder [0, 1, 2] 3 [4] [] = (None, [] @ gs)
            \<and> simulate gs ?s = Some (?s(3 := v))
            \<and> ((\<forall>j<length [0, 1, 2 :: int] - 2. \<not> ?s ([4] ! j)) \<longrightarrow>
                   v = (?s 3 \<noteq> list_all ?s [0, 1, 2]))"
    by (rule mcx_ladder_simulation) simp_all
  then obtain gs v where gs: "mcx_ladder [0, 1, 2] 3 [4] [] = (None, gs)"
    and sim: "simulate gs ?s = Some (?s(3 := v))"
    and v: "(\<forall>j<length [0, 1, 2 :: int] - 2. \<not> ?s ([4] ! j)) \<longrightarrow>
                   v = (?s 3 \<noteq> list_all ?s [0, 1, 2])"
    by auto
  have "v = True" using v by (simp add: all_zero_def)
  with gs sim show ?thesis by auto
qed

text \<open>
  Claim C2 as stated fails on the code when a work qubit starts at 1: with three
  controls of which the first two are 0, the target 0 and the work qubit 1, the ladder
  flips the target although the AND of the controls is 0.
\<close>

theorem mcx_ladder_dirty_work_counterexample:
  "mcx_ladder [0, 1, 2] 3 [4] [] = (None, [CCX 0 1 4, CCX 2 4 3, CCX 0 1 4])
   \<and> simulate [CCX 0 1 4, CCX 2 4 3, CCX 0 1 4] (all_zero(2 := True, 4 := True))
       = Some (all_zero(2 := True, 4 := True, 3 := True))
   \<and> (all_zero(2 := True, 4 := True, 3 := True)) 3
       \<noteq> ((all_zero(2 := True, 4 := True)) 3
            \<noteq> list_all (all_zero(2 := True, 4 := True)) [0, 1, 2])"
proof -
  have "emits (mcx_ladder [0, 1, 2] 3 [4]) (mcx_gates [0, 1, 2] 3 [4])"
    by (rule mcx_ladder_emits) simp
  then have "mcx_ladder [0, 1, 2] 3 [4] [] = (None, [] @ mcx_gates [0, 1, 2] 3 [4])"
    by (rule emitsD)
  moreover have "mcx_gates [0, 1, 2] 3 [4] = [CCX 0 1 4, CCX 2 4 3, CCX 0 1 4]"
    by (simp add: mcx_gates_def ladder_up_def)
  moreover have "simulate [CCX 0 1 4, CCX 2 4 3, CCX 0 1 4] (all_zero(2 := True, 4 := True))
       = Some (all_zero(2 := True, 4 := True, 3 := True))"
    by (simp add: all_zero_def fun_eq_iff)
  ultimately show ?thesis by (simp add: all_zero_def)
qed

section \<open>The prefix predicate compiler and the range composer\<close>

text \<open>
  Claim C1. Let the index register, the flag and the work qubits be pairwise distinct
  qubits, with at least \<open>n - 2\<close> work qubits for an index register of \<open>n\<close> qubits.
  For every bound \<open>C\<close> and every basis state in which the index register holds
  \<open>x\<close> (bit \<open>j\<close> of \<open>x\<close> on qubit \<open>index ! j\<close>, \<open>0 \<le> x < 2 ^ n\<close>) and the flag and the
  work qubits are 0, \<^verbatim>\<open>mark_less_than_constant_disjoint_terms\<close> returns, and simulating
  the statements it appended ends in the initial state with the flag set to \<open>x < C\<close>:
  the index bits and the work qubits (and every other qubit) keep their values.
\<close>

theorem mark_less_than_simulation:
  assumes "distinct (index @ flag # work)" and "length index - 2 \<le> length work"
    and "0 \<le> x" and "x < 2 ^ length index"
    and "\<forall>j<length index. s (index ! j) = bit x j"
    and "\<not> s flag" and "\<forall>w\<in>set work. \<not> s w"
  shows "\<exists>gs. mark_less_than_constant_disjoint_terms index flag C work lines = (None, lines @ gs)
           \<and> simulate gs s = Some (s(flag := (x < C)))"
proof -
  have "simulate (mark_less_gates index flag C work) s = Some (s(flag := (s flag \<noteq> (x < C))))"
    using assms by (intro mark_less_gates_sem) simp_all
  then have "simulate (mark_less_gates index flag C work) s = Some (s(flag := (x < C)))"
    using assms(6) by simp
  then show ?thesis
    using emitsD [OF mark_less_emits [OF assms(2)], of flag C lines] by blast
qed

theorem mark_less_than_simulation_witness:
  "\<exists>gs. mark_less_than_constant_disjoint_terms [0, 1, 2, 3] 4 5 [7, 8] [] = (None, gs)
      \<and> simulate gs (all_zero(2 := True)) = Some (all_zero(2 := True, 4 := True))"
proof -
  have "\<exists>gs. mark_less_than_constant_disjoint_terms [0, 1, 2, 3] 4 5 [7, 8] [] = (None, [] @ gs)
           \<and> simulate gs (all_zero(2 := True)) = Some ((all_zero(2 := True))(4 := ((4::int) < 5)))"
  proof (rule mark_less_than_simulation)
    show "\<forall>j<length [0, 1, 2, 3 :: int]. (all_zero(2 := True)) ([0, 1, 2, 3] ! j) = bit (4::int) j"
      by (simp add: all_zero_def less_Suc_eq bit_numeral_rec)
  qed (simp_all add: all_zero_def)
  then show ?thesis by simp
qed

text \<open>
  Claim C3. With pairwise distinct qubits and enough work qubits as above, and
  \<^verbatim>\<open>flag_out\<close>, \<^verbatim>\<open>tmp_hi\<close>, \<^verbatim>\<open>tmp_lo\<close> and the work qubits at 0 in a basis state whose
  index register holds \<open>x\<close>: simulating the statements appended by \<^verbatim>\<open>mark_range_lo_hi\<close>
  ends with \<^verbatim>\<open>flag_out\<close> set to \<open>lo \<le> x \<and> x < hi\<close>, \<^verbatim>\<open>tmp_hi\<close> to \<open>x < hi\<close> and
  \<^verbatim>\<open>tmp_lo\<close> to \<open>x < lo\<close>, and every other qubit, so every index bit, unchanged. This
  holds for all bounds, in particular for \<open>lo \<le> hi\<close> in \<open>[0, 2 ^ n]\<close>.
\<close>

theorem mark_range_simulation:
  assumes "distinct (index @ flag_out # tmp_hi # tmp_lo # work)"
    and "length index - 2 \<le> length work"
    and "0 \<le> x" and "x < 2 ^ length index"
    and "\<forall>j<length index. s (index ! j) = bit x j"
    and "\<not> s flag_out" and "\<not> s tmp_hi" and "\<not> s tmp_lo"
    and "\<forall>w\<in>set work. \<not> s w"
  shows "\<exists>gs. mark_range_lo_hi index flag_out tmp_hi tmp_lo lo hi work lines = (None, lines @ gs)
           \<and> simulate gs s
               = Some (s(tmp_hi := (x < hi), tmp_lo := (x < lo),
                         flag_out := (lo \<le> x \<and> x < hi)))"
proof -
  have h: "holds_index index [flag_out, tmp_hi, tmp_lo] work s x"
    using assms by (intro holds_indexI) simp_all
  have "(x < hi \<and> \<not> x < lo) = (lo \<le> x \<and> x < hi)" by auto
  then have "simulate (mark_range_gates index flag_out tmp_hi tmp_lo lo hi work) s
               = Some (s(tmp_hi := (x < hi), tmp_lo := (x < lo),
                         flag_out := (lo \<le> x \<and> x < hi)))"
    using mark_range_gates_sem [OF h, of lo hi] assms(6-8) by simp
  then show ?thesis
    using emitsD [OF mark_range_emits [OF assms(2)], of flag_out tmp_hi tmp_lo lo hi lines]
    by blast
qed

theorem mark_range_simulation_witness:
  "\<exists>gs. mark_range_lo_hi [0, 1, 2] 3 4 5 2 6 [6] [] = (None, gs)
      \<and> simulate gs (all_zero(0 := True, 2 := True))
          = Some (all_zero(0 := True, 2 := True, 4 := True, 5 := False, 3 := True))"
proof -
  let ?s = "all_zero(0 := True, 2 := True)"
  have "\<exists>gs. mark_range_lo_hi [0, 1, 2] 3 4 5 2 6 [6] [] = (None, [] @ gs)
           \<and> simulate gs ?s
               = Some (?s(4 := ((5::int) < 6), 5 := ((5::int) < 2),
                         3 := ((2::int) \<le> 5 \<and> (5::int) < 6)))"
  proof (rule mark_range_simulation)
    show "\<forall>j<length [0, 1, 2 :: int]. ?s ([0, 1, 2] ! j) = bit (5::int) j"
      by (simp add: all_zero_def less_Suc_eq bit_numeral_rec)
  qed (simp_all add: all_zero_def)
  then show ?thesis by simp
qed

section \<open>The phase oracle: compute, then uncompute\<close>

text \<open>
  Claim C4. With pairwise distinct qubits, enough work qubits, the work qubits at 0 and
  the index register holding \<open>x\<close>: \<^verbatim>\<open>phase_oracle_qfilter\<close> returns, and what it appends is
  a compute part, the statement \<^verbatim>\<open>z\<close> on the flag, and an uncompute part. For the tag
  \<^verbatim>\<open>qid_lt\<close> both parts are what \<^verbatim>\<open>mark_less_than_constant_disjoint_terms\<close> appends; for
  any other tag they are what \<^verbatim>\<open>mark_range_lo_hi\<close> and \<^verbatim>\<open>uncompute_range_lo_hi\<close> append.
  Simulating the compute part followed by the uncompute part, the \<^verbatim>\<open>z\<close> left out, ends in
  the initial state: flag and temporary qubits that start at 0 end at 0, as do the work
  qubits, and no index bit changes. The flags need not start at 0 for this.
\<close>

theorem phase_oracle_compute_uncompute:
  fixes x :: int
  assumes "distinct (index @ flag_range # tmp_hi # tmp_lo # work)"
    and "length index - 2 \<le> length work"
    and "0 \<le> x" and "x < 2 ^ length index"
    and "\<forall>j<length index. s (index ! j) = bit x j"
    and "\<forall>w\<in>set work. \<not> s w"
  shows "\<exists>compute uncompute.
      phase_oracle_qfilter index flag_range tmp_hi tmp_lo pred_type lo hi work lines
        = (None, lines @ compute @ [Z flag_range] @ uncompute)
      \<and> (if pred_type = ''qid_lt''
          then emits (mark_less_than_constant_disjoint_terms index flag_range hi work) compute
             \<and> emits (mark_less_than_constant_disjoint_terms index flag_range hi work) uncompute
          else emits (mark_range_lo_hi index flag_range tmp_hi tmp_lo lo hi work) compute
             \<and> emits (uncompute_range_lo_hi index flag_range tmp_hi tmp_lo lo hi work) uncompute)
      \<and> simulate (compute @ uncompute) s = Some s"
proof -
  have h: "holds_index index [flag_range, tmp_hi, tmp_lo] work s x"
    using assms by (intro holds_indexI) simp_all
  note len = assms(2)
  show ?thesis
  proof (cases "pred_type = ''qid_lt''")
    case True
    let ?L = "mark_less_gates index flag_range hi work"
    have "phase_oracle_qfilter index flag_range tmp_hi tmp_lo pred_type lo hi work lines
        = (None, lines @ ?L @ [Z flag_range] @ ?L)"
      using emitsD [OF phase_oracle_emits [OF len], of flag_range tmp_hi tmp_lo pred_type lo hi lines]
        True by simp
    moreover have "emits (mark_less_than_constant_disjoint_terms index flag_range hi work) ?L"
      by (rule mark_less_emits [OF len])
    moreover have "simulate (?L @ ?L) s = Some s"
      by (rule mark_less_twice [OF h]) simp
    ultimately show ?thesis using True by auto
  next
    case False
    let ?A = "mark_range_gates index flag_range tmp_hi tmp_lo lo hi work"
    let ?B = "uncompute_range_gates index flag_range tmp_hi tmp_lo lo hi work"
    have "phase_oracle_qfilter index flag_range tmp_hi tmp_lo pred_type lo hi work lines
        = (None, lines @ ?A @ [Z flag_range] @ ?B)"
      using emitsD [OF phase_oracle_emits [OF len], of flag_range tmp_hi tmp_lo pred_type lo hi lines]
        False by simp
    moreover have "emits (mark_range_lo_hi index flag_range tmp_hi tmp_lo lo hi work) ?A"
      by (rule mark_range_emits [OF len])
    moreover have "emits (uncompute_range_lo_hi index flag_range tmp_hi tmp_lo lo hi work) ?B"
      by (rule uncompute_range_emits [OF len])
    moreover have "simulate (?A @ ?B) s = Some s"
      by (rule range_compute_uncompute [OF h])
    ultimately show ?thesis using False by auto
  qed
qed

theorem phase_oracle_compute_uncompute_witness:
  "(\<exists>compute uncompute.
      phase_oracle_qfilter [0, 1, 2] 3 4 5 ''qid_range'' 2 6 [6] []
        = (None, compute @ [Z 3] @ uncompute)
      \<and> emits (mark_range_lo_hi [0, 1, 2] 3 4 5 2 6 [6]) compute
      \<and> emits (uncompute_range_lo_hi [0, 1, 2] 3 4 5 2 6 [6]) uncompute
      \<and> simulate (compute @ uncompute) (all_zero(0 := True, 2 := True))
          = Some (all_zero(0 := True, 2 := True)))
   \<and> (\<exists>compute uncompute.
      phase_oracle_qfilter [0, 1, 2] 3 4 5 ''qid_lt'' 2 6 [6] []
        = (None, compute @ [Z 3] @ uncompute)
      \<and> emits (mark_less_than_constant_disjoint_terms [0, 1, 2] 3 6 [6]) compute
      \<and> emits (mark_less_than_constant_disjoint_terms [0, 1, 2] 3 6 [6]) uncompute
      \<and> simulate (compute @ uncompute) (all_zero(0 := True, 2 := True))
          = Some (all_zero(0 := True, 2 := True)))"
proof -
  let ?s = "all_zero(0 := True, 2 := True)"
  have enc: "\<forall>j<length [0, 1, 2 :: int]. ?s ([0, 1, 2] ! j) = bit (5::int) j"
    by (simp add: all_zero_def less_Suc_eq bit_numeral_rec)
  have pre: "distinct ([0, 1, 2] @ 3 # 4 # 5 # [6 :: int])"
    "length [0, 1, 2 :: int] - 2 \<le> length [6 :: int]"
    "(0::int) \<le> 5" "(5::int) < 2 ^ length [0, 1, 2 :: int]"
    "\<forall>w\<in>set [6]. \<not> ?s w"
    by (simp_all add: all_zero_def)
  note inst = phase_oracle_compute_uncompute
    [where index = "[0, 1, 2]" and flag_range = 3 and tmp_hi = 4 and tmp_lo = 5
       and work = "[6]" and x = 5 and s = ?s and lo = 2 and hi = 6 and lines = "[]",
     OF pre(1-4) enc pre(5)]
  show ?thesis
    using inst [of "''qid_range''"] inst [of "''qid_lt''"] by simp
qed

section \<open>The assembled programs\<close>

text \<open>
  Claim C5, as the code has it. For \<open>n_index \<ge> 1\<close> and \<open>flags_count \<ge> 1\<close> the builder
  returns a program; its second line is the register declaration, no other line
  declares a register, and the size declared is
  \<open>n_index + flags_count + max 0 (n_index - 2)\<close>: that is \<open>2 n_index + flags_count - 2\<close>
  from \<open>n_index = 2\<close> on, and \<open>flags_count + 1\<close> for \<open>n_index = 1\<close>. (With
  \<open>flags_count \<le> 0\<close> the builder raises on \<^verbatim>\<open>flags[0]\<close>.)
\<close>

theorem grover_register_declaration:
  assumes "1 \<le> n_index" and "1 \<le> flags_count"
  shows "\<exists>lines.
      build_qasm2_grover_qfilter_lines header n_index iterations pred_type lo hi flags_count
        = Inr lines
      \<and> build_qasm2_grover_qfilter header n_index iterations pred_type lo hi flags_count
        = Inr (program_text lines)
      \<and> lines ! 1 = QReg (n_index + flags_count + max 0 (n_index - 2))
      \<and> register_declarations lines
        = [if 2 \<le> n_index then 2 * n_index + flags_count - 2 else flags_count + 1]"
proof -
  let ?total = "n_index + flags_count + max 0 (n_index - 2)"
  obtain gs where
    ls: "build_qasm2_grover_qfilter_lines header n_index iterations pred_type lo hi flags_count
           = Inr ([Raw header, QReg ?total, Raw ''creg c[1];'',
                   Raw (grover_comment n_index iterations pred_type lo hi)] @ gs)"
    and gs: "list_all is_gate gs"
    using grover_lines_returns [OF assms] by blast
  have "?total = (if 2 \<le> n_index then 2 * n_index + flags_count - 2 else flags_count + 1)"
    using assms(1) by auto
  then have "register_declarations
      ([Raw header, QReg ?total, Raw ''creg c[1];'',
        Raw (grover_comment n_index iterations pred_type lo hi)] @ gs)
      = [if 2 \<le> n_index then 2 * n_index + flags_count - 2 else flags_count + 1]"
    using register_declarations_gates [OF gs] by (simp add: register_declarations_append)
  then show ?thesis
    using ls by (simp add: build_qasm2_grover_qfilter_def)
qed

theorem grover_register_declaration_witness:
  "\<exists>lines. build_qasm2_grover_qfilter_lines ''OPENQASM 2.0;'' 4 1 ''qid_lt'' 0 5 3 = Inr lines
      \<and> lines ! 1 = QReg 9 \<and> register_declarations lines = [9]"
  using grover_register_declaration [of 4 3 "''OPENQASM 2.0;''" 1 "''qid_lt''" 0 5] by auto

text \<open>
  Claim C5 as stated fails for \<open>n_index = 1\<close>: with three flags the program declares 4
  qubits, not \<open>2 \<cdot> 1 + 3 - 2 = 3\<close>.
\<close>

theorem grover_register_declaration_counterexample:
  "map_sum id register_declarations
     (build_qasm2_grover_qfilter_lines ''OPENQASM 2.0;'' 1 0 ''qid_lt'' 0 1 3) = Inr [4]
   \<and> [4] \<noteq> [2 * 1 + 3 - 2 :: int]"
  by code_simp

text \<open>
  Claim C10. For \<open>n_index \<ge> 1\<close>, three flags, either tag and bounds in
  \<open>[0, 2 ^ n_index]\<close>, both builders return a program text. An exception raised by any
  call of \<^verbatim>\<open>mcx_ladder\<close> would reach the builder's result, and \<^verbatim>\<open>mcx_ladder\<close> raises
  exactly when it has too few work qubits (claim C6), so no call is short of work
  qubits. The builders allocate \<open>max 0 (n_index - 2)\<close> work qubits; a prefix term for
  bit position \<open>i\<close> has \<open>n_index - i\<close> controls, and the term for position 0, with all
  \<open>n_index\<close> index bits as controls, needs exactly the work qubits allocated.
\<close>

theorem builders_return:
  assumes "1 \<le> n_index" and "flags_count = 3"
    and "pred_type \<in> {''qid_lt'', ''qid_range''}"
    and "0 \<le> lo" and "lo \<le> 2 ^ nat n_index" and "0 \<le> hi" and "hi \<le> 2 ^ nat n_index"
  shows "(\<exists>text. build_qasm2_grover_qfilter header n_index iterations pred_type lo hi
                   flags_count = Inr text)
       \<and> (\<exists>text. build_qasm2_mlae_schedule_element header n_index k pred_type lo hi
                   flags_count = Inr text)
       \<and> length (py_range (n_index + flags_count)
                    (n_index + flags_count + max 0 (n_index - 2))) = nat (max 0 (n_index - 2))
       \<and> length (fst (term_controls (py_range 0 n_index) bits 0)) = nat n_index
       \<and> (\<forall>i<nat n_index.
             length (fst (term_controls (py_range 0 n_index) bits i)) - 2
               \<le> nat (max 0 (n_index - 2)))"
proof -
  have f: "1 \<le> flags_count" using assms(2) by simp
  have "\<exists>text. build_qasm2_grover_qfilter header n_index iterations pred_type lo hi
                   flags_count = Inr text"
    using grover_lines_returns [OF assms(1) f, of header iterations pred_type lo hi]
    by (auto simp: build_qasm2_grover_qfilter_def)
  moreover have "\<exists>text. build_qasm2_mlae_schedule_element header n_index k pred_type lo hi
                   flags_count = Inr text"
    using mlae_lines_returns [OF assms(1) f, of header k pred_type lo hi]
    by (auto simp: build_qasm2_mlae_schedule_element_def)
  moreover have "length (py_range (n_index + flags_count)
                    (n_index + flags_count + max 0 (n_index - 2))) = nat (max 0 (n_index - 2))"
    by (simp add: py_range_length)
  moreover have "length (fst (term_controls (py_range 0 n_index) bits i)) = nat n_index - i"
    if "i < nat n_index" for i
    using that term_controls_length [of i "py_range 0 n_index" bits]
    by (simp add: py_range_length)
  ultimately show ?thesis using assms(1) by auto
qed

theorem builders_return_witness:
  "(\<exists>text. build_qasm2_grover_qfilter ''OPENQASM 2.0;'' 4 2 ''qid_range'' 3 16 3 = Inr text)
   \<and> (\<exists>text. build_qasm2_mlae_schedule_element ''OPENQASM 2.0;'' 4 2 ''qid_range'' 3 16 3
        = Inr text)"
  using builders_return [of 4 3 "''qid_range''" 3 16 "''OPENQASM 2.0;''" 2 2] by simp

text \<open>
  Claim C9. For all arguments, the list of lines of \<^verbatim>\<open>build_qasm2_mlae_schedule_element\<close>
  for the power \<open>k\<close> is the list of lines of \<^verbatim>\<open>build_qasm2_grover_qfilter\<close> for
  \<open>k\<close> iterations with the fourth element replaced by the comment of the other
  builder, and conversely; when one builder raises, the other raises the same
  exception. The returned text is the lines joined by newlines. (The header is one
  line of the text by the specification, which makes the fourth element line 4.)
\<close>

theorem mlae_equals_grover_up_to_comment:
  "map_sum id rendered_lines
     (build_qasm2_mlae_schedule_element_lines header n_index k pred_type lo hi flags_count)
     = map_sum id (\<lambda>rs. rs[3 := mlae_comment n_index k pred_type lo hi])
         (map_sum id rendered_lines
            (build_qasm2_grover_qfilter_lines header n_index k pred_type lo hi flags_count))
   \<and> map_sum id rendered_lines
     (build_qasm2_grover_qfilter_lines header n_index k pred_type lo hi flags_count)
     = map_sum id (\<lambda>rs. rs[3 := grover_comment n_index k pred_type lo hi])
         (map_sum id rendered_lines
            (build_qasm2_mlae_schedule_element_lines header n_index k pred_type lo hi
               flags_count))
   \<and> build_qasm2_mlae_schedule_element header n_index k pred_type lo hi flags_count
     = map_sum id (\<lambda>rs. join [CHR 0x0A] rs @ [CHR 0x0A])
         (map_sum id rendered_lines
            (build_qasm2_mlae_schedule_element_lines header n_index k pred_type lo hi
               flags_count))
   \<and> build_qasm2_grover_qfilter header n_index k pred_type lo hi flags_count
     = map_sum id (\<lambda>rs. join [CHR 0x0A] rs @ [CHR 0x0A])
         (map_sum id rendered_lines
            (build_qasm2_grover_qfilter_lines header n_index k pred_type lo hi flags_count))"
proof -
  have upd: "rendered_lines (ls[3 := Raw c]) = (rendered_lines ls)[3 := c]" for ls c
    by (simp add: rendered_lines_def map_update)
  have 1: "map_sum id rendered_lines
     (build_qasm2_mlae_schedule_element_lines header n_index k pred_type lo hi flags_count)
     = map_sum id (\<lambda>rs. rs[3 := mlae_comment n_index k pred_type lo hi])
         (map_sum id rendered_lines
            (build_qasm2_grover_qfilter_lines header n_index k pred_type lo hi flags_count))"
    by (subst lines_differ_in_comment(1)) (simp add: sum.map_comp comp_def upd)
  have 2: "map_sum id rendered_lines
     (build_qasm2_grover_qfilter_lines header n_index k pred_type lo hi flags_count)
     = map_sum id (\<lambda>rs. rs[3 := grover_comment n_index k pred_type lo hi])
         (map_sum id rendered_lines
            (build_qasm2_mlae_schedule_element_lines header n_index k pred_type lo hi
               flags_count))"
    by (subst lines_differ_in_comment(2)) (simp add: sum.map_comp comp_def upd)
  have 3: "build_qasm2_mlae_schedule_element header n_index k pred_type lo hi flags_count
     = map_sum id (\<lambda>rs. join [CHR 0x0A] rs @ [CHR 0x0A])
         (map_sum id rendered_lines
            (build_qasm2_mlae_schedule_element_lines header n_index k pred_type lo hi
               flags_count))"
    by (simp add: build_qasm2_mlae_schedule_element_def sum.map_comp comp_def
        program_text_def [abs_def] id_def)
  have 4: "build_qasm2_grover_qfilter header n_index k pred_type lo hi flags_count
     = map_sum id (\<lambda>rs. join [CHR 0x0A] rs @ [CHR 0x0A])
         (map_sum id rendered_lines
            (build_qasm2_grover_qfilter_lines header n_index k pred_type lo hi flags_count))"
    by (simp add: build_qasm2_grover_qfilter_def sum.map_comp comp_def
        program_text_def [abs_def] id_def)
  from 1 2 3 4 show ?thesis by blast
qed

theorem mlae_equals_grover_up_to_comment_witness:
  "map_sum id rendered_lines
     (build_qasm2_mlae_schedule_element_lines ''OPENQASM 2.0;'' 3 2 ''qid_range'' 2 6 3)
     = map_sum id (\<lambda>rs. rs[3 := mlae_comment 3 2 ''qid_range'' 2 6])
         (map_sum id rendered_lines
            (build_qasm2_grover_qfilter_lines ''OPENQASM 2.0;'' 3 2 ''qid_range'' 2 6 3))"
  using mlae_equals_grover_up_to_comment [of "''OPENQASM 2.0;''" 3 2 "''qid_range''" 2 6 3]
  by blast

text \<open>
  Claim C7, as the code has it. Let the tag be outside the two supported ones. Then
  \<^verbatim>\<open>phase_oracle_qfilter\<close> and \<^verbatim>\<open>final_compute_and_measure_flag\<close> are the routines of
  the tag \<^verbatim>\<open>qid_range\<close>. Each builder gives, for the same other arguments, what it
  gives for \<^verbatim>\<open>qid_range\<close> with the metadata comment (the fourth element of the list
  of lines) replaced by the comment that shows the tag: every other line is the same,
  and the tag adds no exception. In particular, for \<open>n_index \<ge> 1\<close> and
  \<open>flags_count \<ge> 1\<close> both builders return a program text. The kernels replace the tag
  by \<^verbatim>\<open>qid_lt\<close> before they call a builder.
\<close>

theorem unsupported_tag_takes_range_path:
  assumes "pred_type \<notin> {''qid_lt'', ''qid_range''}"
  shows "phase_oracle_qfilter index flag_range tmp_hi tmp_lo pred_type lo hi work
           = phase_oracle_qfilter index flag_range tmp_hi tmp_lo ''qid_range'' lo hi work
       \<and> final_compute_and_measure_flag index flag_range tmp_hi tmp_lo pred_type lo hi work
           = final_compute_and_measure_flag index flag_range tmp_hi tmp_lo ''qid_range''
               lo hi work
       \<and> build_qasm2_grover_qfilter_lines header n_index iterations pred_type lo hi
            flags_count
           = map_sum id
               (\<lambda>ls. ls[3 := Raw (grover_comment n_index iterations pred_type lo hi)])
               (build_qasm2_grover_qfilter_lines header n_index iterations ''qid_range''
                  lo hi flags_count)
       \<and> build_qasm2_mlae_schedule_element_lines header n_index iterations pred_type lo hi
            flags_count
           = map_sum id
               (\<lambda>ls. ls[3 := Raw (mlae_comment n_index iterations pred_type lo hi)])
               (build_qasm2_mlae_schedule_element_lines header n_index iterations
                  ''qid_range'' lo hi flags_count)
       \<and> (1 \<le> n_index \<and> 1 \<le> flags_count \<longrightarrow>
            (\<exists>lines. build_qasm2_grover_qfilter_lines header n_index iterations pred_type
                        lo hi flags_count = Inr lines
                  \<and> build_qasm2_grover_qfilter header n_index iterations pred_type
                        lo hi flags_count = Inr (program_text lines))
          \<and> (\<exists>lines. build_qasm2_mlae_schedule_element_lines header n_index iterations
                        pred_type lo hi flags_count = Inr lines
                  \<and> build_qasm2_mlae_schedule_element header n_index iterations pred_type
                        lo hi flags_count = Inr (program_text lines)))
       \<and> kernel_pred_type pred_type = ''qid_lt''"
proof -
  have ne: "pred_type \<noteq> ''qid_lt''" using assms by simp
  have ret: "(\<exists>lines. build_qasm2_grover_qfilter_lines header n_index iterations pred_type
                        lo hi flags_count = Inr lines
                  \<and> build_qasm2_grover_qfilter header n_index iterations pred_type
                        lo hi flags_count = Inr (program_text lines))
          \<and> (\<exists>lines. build_qasm2_mlae_schedule_element_lines header n_index iterations
                        pred_type lo hi flags_count = Inr lines
                  \<and> build_qasm2_mlae_schedule_element header n_index iterations pred_type
                        lo hi flags_count = Inr (program_text lines))"
    if "1 \<le> n_index" "1 \<le> flags_count"
    using grover_lines_returns [OF that, of header iterations pred_type lo hi]
      mlae_lines_returns [OF that, of header iterations pred_type lo hi]
    by (auto simp: build_qasm2_grover_qfilter_def build_qasm2_mlae_schedule_element_def)
  have k: "kernel_pred_type pred_type = ''qid_lt''"
    using assms by (simp add: kernel_pred_type_def)
  show ?thesis
    using oracle_other_tag [OF ne, of index flag_range tmp_hi tmp_lo lo hi work]
      final_other_tag [OF ne, of index flag_range tmp_hi tmp_lo lo hi work]
      lines_other_tag(1) [OF ne, of header n_index iterations lo hi flags_count]
      lines_other_tag(2) [OF ne, of header n_index iterations lo hi flags_count]
      ret k
    by blast
qed

theorem unsupported_tag_takes_range_path_witness:
  "phase_oracle_qfilter [0] 1 2 3 ''qid_le'' 0 1 []
     = phase_oracle_qfilter [0] 1 2 3 ''qid_range'' 0 1 []
   \<and> build_qasm2_grover_qfilter_lines ''OPENQASM 2.0;'' 1 0 ''qid_le'' 0 1 3
     = map_sum id (\<lambda>ls. ls[3 := Raw (grover_comment 1 0 ''qid_le'' 0 1)])
         (build_qasm2_grover_qfilter_lines ''OPENQASM 2.0;'' 1 0 ''qid_range'' 0 1 3)
   \<and> (\<exists>lines. build_qasm2_grover_qfilter_lines ''OPENQASM 2.0;'' 1 0 ''qid_le'' 0 1 3
                 = Inr lines
          \<and> build_qasm2_grover_qfilter ''OPENQASM 2.0;'' 1 0 ''qid_le'' 0 1 3
                 = Inr (program_text lines))
   \<and> kernel_pred_type ''qid_le'' = ''qid_lt''"
proof -
  have tag: "''qid_le'' \<notin> {''qid_lt'', ''qid_range''}" by simp
  note inst = unsupported_tag_takes_range_path
    [OF tag, of "[0]" 1 2 3 0 1 "[]" "''OPENQASM 2.0;''" 1 0 3]
  have size: "(1::int) \<le> 1 \<and> (1::int) \<le> 3" by simp
  from inst size show ?thesis by blast
qed

text \<open>
  Claim C7 as stated fails: for the unsupported tag \<^verbatim>\<open>qid_le\<close> the builder raises
  nothing and returns a program, the circuit of the range predicate.
\<close>

theorem unsupported_tag_counterexample:
  "build_qasm2_grover_qfilter_lines ''OPENQASM 2.0;'' 1 0 ''qid_le'' 0 1 3
   = Inr [Raw ''OPENQASM 2.0;'', QReg 4, Raw ''creg c[1];'',
          Raw ''// kernel=grover_qfilter n_index=1 iters=0 pred=qid_le lo=0 hi=1'',
          H 0, X 0, CX 0 2, X 0, X 3, CCX 2 3 1, X 3, Measure 1]"
  by code_simp

end
